theory Spec2Isabelle
  imports
    Main
    "HOL-Library.Char_ord"
    "HOL-Library.List_Lexorder"
    "HOL-Library.Product_Lexorder"
    "HOL-Library.Multiset"
    "HOL-Library.Sublist"
begin

section \<open>Data model\<close>

text \<open>
  Timestamps and ids are JavaScript strings. They are modelled as \<^typ>\<open>string\<close> with the
  lexicographic order on characters, which is what the operator \<^verbatim>\<open><=\<close> of
  \<^verbatim>\<open>runBackfill\<close> computes. The comparisons of the remote log API are taken to be this
  same order. \<^verbatim>\<open>localeCompare\<close>, which the sort of \<^verbatim>\<open>runBackfill\<close> uses, is a
  collation of the host and need not be this order: it is a parameter of the environment.

  \<^verbatim>\<open>AIGLog\<close> keeps the two fields the synchronisation engine reads; \<open>payload\<close> stands for
  the descriptive payload (provider, model, status, counters) that it only passes on. The
  field \<^verbatim>\<open>id\<close> is written \<open>id'\<close>, and the fields of \<^verbatim>\<open>CursorState\<close> carry the prefix
  \<open>c_\<close>, since a record field needs a name of its own.
\<close>

record AIGLog =
  id' :: string
  created_at :: string
  payload :: string

record CursorState =
  c_ts :: string
  c_id :: string

datatype operator = OpEq | OpGt | OpLt

record FetchLogsOptions =
  op :: operator
  ts :: string
  idCmp :: "(operator \<times> string) option"
  asc :: bool
  maxPages :: nat

text \<open>One entry of the \<^verbatim>\<open>filters\<close> query parameter, and the query of one page.\<close>

record log_filter =
  key :: string
  operator :: operator
  "value" :: "string list"

record request =
  per_page :: nat
  page :: nat
  order_by :: string
  order_by_direction :: string
  filters :: "log_filter list"

record CloudflareAPIResponse =
  result :: "AIGLog list option"
  success :: bool
  errors :: "string list"

text \<open>
  What one HTTP exchange can give: a promise rejects (the \<^verbatim>\<open>fetch\<close> itself, or reading
  a body that is not JSON), the response is not \<^verbatim>\<open>ok\<close> (status and body text), or it is
  \<^verbatim>\<open>ok\<close> with a JSON body.
\<close>

datatype api_response =
  ApiRejected string
  | ApiNotOk nat string
  | ApiOk CloudflareAPIResponse

datatype token_response =
  TokenNotOk nat string
  | TokenOk string

datatype insert_response =
  InsertRejected string
  | InsertNotOk nat string
  | InsertOk "nat list option"

text \<open>Every \<^verbatim>\<open>throw\<close> of the engine, and the rejection of a membership write.\<close>

datatype error =
  NetworkError string
  | CFLogsHttpError nat string
  | CFLogsApiError "string list"
  | GoogleTokenError nat string
  | BigQueryHttpError nat string
  | KVPutError string

text \<open>
  \<^verbatim>\<open>Env\<close>: the configuration after \<^verbatim>\<open>parseInt\<close> (taken to yield naturals), and the
  collaborators behind the bindings: the log API, the token endpoint, the insertAll endpoint,
  and the set of keys whose \<^verbatim>\<open>IDS_KV.put\<close> rejects. Reads of both KV namespaces and
  writes to \<^verbatim>\<open>STATE_KV\<close> are taken to succeed. The last field is the host's
  \<^verbatim>\<open>String.prototype.localeCompare\<close>: negative, zero or positive.
\<close>

record Env =
  LOGS_PER_PAGE :: nat
  FORWARD_MAX_PAGES :: nat
  BACKFILL_MAX_PAGES :: nat
  DEDUP_TTL_DAYS :: nat
  logs_api :: "request \<Rightarrow> api_response"
  token_endpoint :: token_response
  insertAll_endpoint :: "AIGLog list \<Rightarrow> insert_response"
  ids_put_rejects :: "string \<Rightarrow> bool"
  localeCompare :: "string \<Rightarrow> string \<Rightarrow> int"

text \<open>
  The persisted state: the three keys of \<^verbatim>\<open>STATE_KV\<close> (the cursor kept decoded, since
  \<^verbatim>\<open>JSON.stringify\<close> and the \<^verbatim>\<open>json\<close> read are inverse on a pair of strings), the
  namespace \<^verbatim>\<open>IDS_KV\<close> (key to value and expiration TTL in seconds), and the insertAll
  requests that have been sent to the sink, in order.
\<close>

record World =
  forward :: "CursorState option"
  oldest :: "string option"
  backfill_stop_at :: "string option"
  ids :: "string \<rightharpoonup> (string \<times> nat)"
  posted :: "AIGLog list list"

text \<open>JavaScript truthiness of the result of a KV read: \<^verbatim>\<open>null\<close> and \<^verbatim>\<open>''\<close> are falsy.\<close>

definition truthy :: "string option \<Rightarrow> bool" where
  "truthy v = (case v of None \<Rightarrow> False | Some s \<Rightarrow> s \<noteq> [])"

text \<open>Both namespaces empty, nothing sent yet.\<close>

definition empty_world :: World where
  "empty_world =
     \<lparr>forward = None, oldest = None, backfill_stop_at = None, ids = Map.empty, posted = []\<rparr>"

section \<open>Record source client: fetchLogs\<close>

definition page_request :: "Env \<Rightarrow> FetchLogsOptions \<Rightarrow> nat \<Rightarrow> request" where
  "page_request env options p =
     \<lparr>per_page = LOGS_PER_PAGE env,
      page = p,
      order_by = ''created_at'',
      order_by_direction = (if asc options then ''asc'' else ''desc''),
      filters =
        \<lparr>key = ''created_at'', operator = op options, value = [ts options]\<rparr> #
        (case idCmp options of
           None \<Rightarrow> []
         | Some (kind, i) \<Rightarrow> [\<lparr>key = ''id'', operator = kind, value = [i]\<rparr>])\<rparr>"

text \<open>
  The \<^verbatim>\<open>while (page <= options.maxPages)\<close> loop of \<^verbatim>\<open>fetchLogs\<close>, with the page number
  and \<^verbatim>\<open>allLogs\<close> as loop state. Each \<^verbatim>\<open>throw\<close> is an \<open>Inl\<close>.
\<close>

function fetchLogs_loop ::
  "Env \<Rightarrow> FetchLogsOptions \<Rightarrow> nat \<Rightarrow> AIGLog list \<Rightarrow> error + AIGLog list" where
  "fetchLogs_loop env options p allLogs =
     (if p \<le> maxPages options then
        (case logs_api env (page_request env options p) of
           ApiRejected m \<Rightarrow> Inl (NetworkError m)
         | ApiNotOk status errorText \<Rightarrow> Inl (CFLogsHttpError status errorText)
         | ApiOk json \<Rightarrow>
             if \<not> success json then Inl (CFLogsApiError (errors json))
             else
               let logs = (case result json of None \<Rightarrow> [] | Some l \<Rightarrow> l) in
               if length logs = 0 then Inr allLogs
               else if length logs < LOGS_PER_PAGE env then Inr (allLogs @ logs)
               else fetchLogs_loop env options (p + 1) (allLogs @ logs))
      else Inr allLogs)"
  by pat_completeness auto
termination
  by (relation "measure (\<lambda>(env, options, p, allLogs). maxPages options + 1 - p)") auto

declare fetchLogs_loop.simps [simp del]

definition fetchLogs :: "Env \<Rightarrow> FetchLogsOptions \<Rightarrow> error + AIGLog list" where
  "fetchLogs env options = fetchLogs_loop env options 1 []"

section \<open>Dedup filter: dedupAndFilter\<close>

definition kvKey :: "string \<Rightarrow> string" where
  "kvKey i = ''id:'' @ i"

text \<open>The \<^verbatim>\<open>for (const log of logs)\<close> loop, with \<^verbatim>\<open>seen\<close> and \<^verbatim>\<open>output\<close> as loop state.\<close>

fun dedup_loop ::
  "(string \<rightharpoonup> (string \<times> nat)) \<Rightarrow> string set \<Rightarrow> AIGLog list \<Rightarrow> AIGLog list \<Rightarrow> AIGLog list" where
  "dedup_loop kv seen output [] = output"
| "dedup_loop kv seen output (log # logs) =
     (if id' log = [] then dedup_loop kv seen output logs
      else if id' log \<in> seen then dedup_loop kv seen output logs
      else if truthy (map_option fst (kv (kvKey (id' log))))
        then dedup_loop kv (insert (id' log) seen) output logs
        else dedup_loop kv (insert (id' log) seen) (output @ [log]) logs)"

text \<open>One \<^verbatim>\<open>IDS_KV.put\<close> with an expiration TTL; it rejects on the keys the environment names.\<close>

definition ids_put :: "Env \<Rightarrow> string \<Rightarrow> string \<Rightarrow> nat \<Rightarrow> World \<Rightarrow> (error + unit) \<times> World" where
  "ids_put env k v ttl w =
     (if ids_put_rejects env k then (Inl (KVPutError k), w)
      else (Inr (), w\<lparr>ids := (ids w)(k \<mapsto> (v, ttl))\<rparr>))"

text \<open>
  The puts of \<^verbatim>\<open>kvPromises\<close>, issued in the order of \<^verbatim>\<open>output\<close>; the \<^verbatim>\<open>catch\<close> handler
  turns a rejection into a warning and the promise resolves.
\<close>

fun kvPromises :: "Env \<Rightarrow> nat \<Rightarrow> AIGLog list \<Rightarrow> World \<Rightarrow> World" where
  "kvPromises env ttlSeconds [] w = w"
| "kvPromises env ttlSeconds (log # output) w =
     (case ids_put env (kvKey (id' log)) ''1'' ttlSeconds w of
        (Inl e, w') \<Rightarrow> kvPromises env ttlSeconds output w'
      | (Inr u, w') \<Rightarrow> kvPromises env ttlSeconds output w')"

definition dedupAndFilter :: "Env \<Rightarrow> AIGLog list \<Rightarrow> World \<Rightarrow> AIGLog list \<times> World" where
  "dedupAndFilter env logs w =
     (let ttlDays = DEDUP_TTL_DAYS env;
          ttlSeconds = ttlDays * 24 * 60 * 60;
          output = dedup_loop (ids w) {} [] logs
      in if length output > 0 then (output, kvPromises env ttlSeconds output w)
         else (output, w))"

section \<open>Sink writer: bqInsertAll\<close>

definition getGoogleAccessToken :: "Env \<Rightarrow> error + string" where
  "getGoogleAccessToken env =
     (case token_endpoint env of
        TokenNotOk status errorText \<Rightarrow> Inl (GoogleTokenError status errorText)
      | TokenOk access_token \<Rightarrow> Inr access_token)"

text \<open>
  \<^verbatim>\<open>bqInsertAll\<close>: nothing is sent for an empty batch or without a token; otherwise one
  request carries the whole batch (one row per log, \<^verbatim>\<open>insertId\<close> the log's id). Only a
  rejected exchange or a response that is not \<^verbatim>\<open>ok\<close> throws; \<^verbatim>\<open>insertErrors\<close> are logged.
\<close>

definition bqInsertAll :: "Env \<Rightarrow> AIGLog list \<Rightarrow> World \<Rightarrow> (error + unit) \<times> World" where
  "bqInsertAll env logs w =
     (if length logs = 0 then (Inr (), w)
      else
        (case getGoogleAccessToken env of
           Inl e \<Rightarrow> (Inl e, w)
         | Inr accessToken \<Rightarrow>
             let w' = w\<lparr>posted := posted w @ [logs]\<rparr> in
             (case insertAll_endpoint env logs of
                InsertRejected m \<Rightarrow> (Inl (NetworkError m), w')
              | InsertNotOk status errorText \<Rightarrow> (Inl (BigQueryHttpError status errorText), w')
              | InsertOk insertErrors \<Rightarrow> (Inr (), w'))))"

section \<open>Sync controllers: runForward and runBackfill\<close>

text \<open>The option objects of the two fetches of \<^verbatim>\<open>runForward\<close>.\<close>

definition phase1_options :: "string \<Rightarrow> string \<Rightarrow> FetchLogsOptions" where
  "phase1_options lastTs lastId =
     \<lparr>op = OpEq, ts = lastTs, idCmp = Some (OpGt, lastId), asc = True, maxPages = 5\<rparr>"

definition phase2_options :: "Env \<Rightarrow> string \<Rightarrow> FetchLogsOptions" where
  "phase2_options env lastTs =
     \<lparr>op = OpGt, ts = lastTs, idCmp = None, asc = True, maxPages = FORWARD_MAX_PAGES env\<rparr>"

text \<open>
  \<^verbatim>\<open>runForward\<close>. The clock enters through \<open>nowMinus10m\<close>, the ISO string of ten minutes
  before the cycle starts. The result pairs the outcome of the cycle (\<open>Inl\<close>: the promise
  rejects) with the state it leaves.
\<close>

definition runForward :: "Env \<Rightarrow> string \<Rightarrow> World \<Rightarrow> (error + unit) \<times> World" where
  "runForward env nowMinus10m w =
     (let cursor = forward w;
          lastTs = (case cursor of None \<Rightarrow> nowMinus10m | Some c \<Rightarrow> c_ts c);
          lastId = (case cursor of None \<Rightarrow> [] | Some c \<Rightarrow> c_id c)
      in
        case fetchLogs env (phase1_options lastTs lastId) of
          Inl e \<Rightarrow> (Inl e, w)
        | Inr phase1 \<Rightarrow>
            (case fetchLogs env (phase2_options env lastTs) of
               Inl e \<Rightarrow> (Inl e, w)
             | Inr phase2 \<Rightarrow>
                 let allLogs = phase1 @ phase2;
                     (toSend, w1) = dedupAndFilter env allLogs w
                 in
                   if length toSend > 0 then
                     (case bqInsertAll env toSend w1 of
                        (Inl e, w2) \<Rightarrow> (Inl e, w2)
                      | (Inr u, w2) \<Rightarrow>
                          let lastLog = last toSend;
                              w3 = w2\<lparr>forward :=
                                     Some \<lparr>c_ts = created_at lastLog, c_id = id' lastLog\<rparr>\<rparr>;
                              w4 = (if \<not> truthy (oldest w3)
                                    then w3\<lparr>oldest := Some (created_at (hd toSend))\<rparr>
                                    else w3)
                          in (Inr (), w4))
                   else (Inr (), w1)))"

text \<open>The pair (timestamp, id) of a record, ordered by the string order on both parts.\<close>

definition log_key :: "AIGLog \<Rightarrow> string \<times> string" where
  "log_key r = (created_at r, id' r)"

definition backfill_options :: "Env \<Rightarrow> string \<Rightarrow> FetchLogsOptions" where
  "backfill_options env oldestTs =
     \<lparr>op = OpLt, ts = oldestTs, idCmp = None, asc = False, maxPages = BACKFILL_MAX_PAGES env\<rparr>"

text \<open>
  \<^verbatim>\<open>Array.prototype.sort\<close> with a comparator. The sort of an array is stable, and for a
  consistent comparator, as a collation gives, every stable sort returns the list that
  this insertion sort returns: \<open>x\<close> goes before the first element it does not come after.
\<close>

fun insort_by :: "('a \<Rightarrow> 'a \<Rightarrow> int) \<Rightarrow> 'a \<Rightarrow> 'a list \<Rightarrow> 'a list" where
  "insort_by cmp x [] = [x]"
| "insort_by cmp x (y # ys) =
     (if cmp x y \<le> 0 then x # y # ys else y # insort_by cmp x ys)"

definition sort_by :: "('a \<Rightarrow> 'a \<Rightarrow> int) \<Rightarrow> 'a list \<Rightarrow> 'a list" where
  "sort_by cmp xs = foldr (insort_by cmp) xs []"

text \<open>
  The comparator of \<^verbatim>\<open>runBackfill\<close>:
  \<^verbatim>\<open>a.created_at.localeCompare(b.created_at) || a.id.localeCompare(b.id)\<close>.
\<close>

definition compare_logs :: "Env \<Rightarrow> AIGLog \<Rightarrow> AIGLog \<Rightarrow> int" where
  "compare_logs env a b =
     (let c = localeCompare env (created_at a) (created_at b)
      in if c \<noteq> 0 then c else localeCompare env (id' a) (id' b))"

text \<open>
  \<^verbatim>\<open>runBackfill\<close>. The batch is sorted with \<^verbatim>\<open>localeCompare\<close>; the new oldest value
  is compared with the stop boundary by \<^verbatim>\<open><=\<close> on strings.
\<close>

definition runBackfill :: "Env \<Rightarrow> World \<Rightarrow> (error + unit) \<times> World" where
  "runBackfill env w =
     (case oldest w of
        None \<Rightarrow> (Inr (), w)
      | Some oldestTs \<Rightarrow>
          if \<not> truthy (Some oldestTs) then (Inr (), w)
          else
            let stopAt = (case backfill_stop_at w of
                            None \<Rightarrow> ''1970-01-01T00:00:00Z''
                          | Some s \<Rightarrow> if truthy (Some s) then s else ''1970-01-01T00:00:00Z'')
            in
              (case fetchLogs env (backfill_options env oldestTs) of
                 Inl e \<Rightarrow> (Inl e, w)
               | Inr batch \<Rightarrow>
                   if length batch = 0 then (Inr (), w\<lparr>oldest := None\<rparr>)
                   else
                     let sortedLogs = sort_by (compare_logs env) batch;
                         (toSend, w1) = dedupAndFilter env sortedLogs w
                     in
                       if length toSend > 0 then
                         (case bqInsertAll env toSend w1 of
                            (Inl e, w2) \<Rightarrow> (Inl e, w2)
                          | (Inr u, w2) \<Rightarrow>
                              let newOldest = created_at (hd toSend) in
                              if newOldest \<le> stopAt then (Inr (), w2\<lparr>oldest := None\<rparr>)
                              else (Inr (), w2\<lparr>oldest := Some newOldest\<rparr>))
                       else (Inr (), w1)))"

section \<open>Views of a cycle\<close>

text \<open>
  The parts of a cycle that the properties below speak about, each read off the controller:
  the cursor position a forward cycle starts from, the concatenation of its two fetches,
  the batch a cycle hands to the sink, and the outcome of the sink call on a batch.
\<close>

definition lastTs_of :: "string \<Rightarrow> World \<Rightarrow> string" where
  "lastTs_of nowMinus10m w = (case forward w of None \<Rightarrow> nowMinus10m | Some c \<Rightarrow> c_ts c)"

definition lastId_of :: "World \<Rightarrow> string" where
  "lastId_of w = (case forward w of None \<Rightarrow> [] | Some c \<Rightarrow> c_id c)"

definition forward_fetch :: "Env \<Rightarrow> string \<Rightarrow> World \<Rightarrow> error + AIGLog list" where
  "forward_fetch env nowMinus10m w =
     (case fetchLogs env (phase1_options (lastTs_of nowMinus10m w) (lastId_of w)) of
        Inl e \<Rightarrow> Inl e
      | Inr phase1 \<Rightarrow>
          (case fetchLogs env (phase2_options env (lastTs_of nowMinus10m w)) of
             Inl e \<Rightarrow> Inl e
           | Inr phase2 \<Rightarrow> Inr (phase1 @ phase2)))"

definition sink_outcome :: "Env \<Rightarrow> AIGLog list \<Rightarrow> error + unit" where
  "sink_outcome env logs = fst (bqInsertAll env logs empty_world)"

text \<open>The fetch of a backfill cycle, when the cycle gets as far as fetching.\<close>

definition backfill_fetch :: "Env \<Rightarrow> World \<Rightarrow> (error + AIGLog list) option" where
  "backfill_fetch env w =
     (case oldest w of
        None \<Rightarrow> None
      | Some t \<Rightarrow> if t = [] then None else Some (fetchLogs env (backfill_options env t)))"

text \<open>
  The host's collation orders the strings of \<open>S\<close> as the string order does. It does on
  timestamps of one ISO-8601 format.
\<close>

definition collates_as_strings :: "Env \<Rightarrow> string set \<Rightarrow> bool" where
  "collates_as_strings env S =
     (\<forall>a \<in> S. \<forall>b \<in> S.
        (localeCompare env a b \<le> 0) = (a \<le> b) \<and> (localeCompare env a b = 0) = (a = b))"

definition stopAt_of :: "World \<Rightarrow> string" where
  "stopAt_of w =
     (case backfill_stop_at w of
        None \<Rightarrow> ''1970-01-01T00:00:00Z''
      | Some s \<Rightarrow> if truthy (Some s) then s else ''1970-01-01T00:00:00Z'')"

text \<open>
  A backfill cycle gets to the advance step with a batch whose first timestamp is at or
  below the stop boundary.
\<close>

definition reaches_boundary :: "Env \<Rightarrow> World \<Rightarrow> bool" where
  "reaches_boundary env w =
     (case backfill_fetch env w of
        Some (Inr batch) \<Rightarrow>
          batch \<noteq> [] \<and>
          (let toSend = fst (dedupAndFilter env (sort_by (compare_logs env) batch) w)
           in toSend \<noteq> [] \<and> sink_outcome env toSend = Inr () \<and>
              created_at (hd toSend) \<le> stopAt_of w)
      | _ \<Rightarrow> False)"

text \<open>A run of forward cycles, each with its own environment and clock reading.\<close>

fun forward_cycles :: "(Env \<times> string) list \<Rightarrow> World \<Rightarrow> World" where
  "forward_cycles [] w = w"
| "forward_cycles ((env, nowMinus10m) # cycles) w =
     forward_cycles cycles (snd (runForward env nowMinus10m w))"

text \<open>The state after \<open>n\<close> backfill cycles in a row against one environment.\<close>

fun backfill_cycles :: "Env \<Rightarrow> nat \<Rightarrow> World \<Rightarrow> World" where
  "backfill_cycles env 0 w = w"
| "backfill_cycles env (Suc n) w = backfill_cycles env n (snd (runBackfill env w))"

section \<open>A static log source\<close>

text \<open>
  The remote log API over a fixed list of records \<open>src\<close>, as the interface describes it: the
  records that satisfy every filter, ordered by (timestamp, id) in the requested direction,
  cut into pages of \<^verbatim>\<open>per_page\<close> records, pages counted from 1.
\<close>

definition compare_op :: "operator \<Rightarrow> string \<Rightarrow> string \<Rightarrow> bool" where
  "compare_op c x v = (case c of OpEq \<Rightarrow> x = v | OpGt \<Rightarrow> v < x | OpLt \<Rightarrow> x < v)"

definition filter_holds :: "log_filter \<Rightarrow> AIGLog \<Rightarrow> bool" where
  "filter_holds f r =
     (case value f of
        [v] \<Rightarrow> compare_op (operator f) (if key f = ''id'' then id' r else created_at r) v
      | _ \<Rightarrow> True)"

definition source_matching :: "AIGLog list \<Rightarrow> request \<Rightarrow> AIGLog list" where
  "source_matching src q =
     (let matching = filter (\<lambda>r. list_all (\<lambda>f. filter_holds f r) (filters q)) src;
          ordered = sort_key log_key matching
      in if order_by_direction q = ''desc'' then rev ordered else ordered)"

definition static_source :: "AIGLog list \<Rightarrow> request \<Rightarrow> api_response" where
  "static_source src q =
     ApiOk \<lparr>result = Some (take (per_page q) (drop ((page q - 1) * per_page q) (source_matching src q))),
            success = True, errors = []\<rparr>"

text \<open>
  What a fetch with the given options selects from the source, in the order it asks for:
  the answer of the source with the paging taken away.
\<close>

definition selected :: "AIGLog list \<Rightarrow> FetchLogsOptions \<Rightarrow> AIGLog list" where
  "selected src options =
     (let ordered = sort_key log_key
            (filter (\<lambda>r. compare_op (op options) (created_at r) (ts options) \<and>
                         (case idCmp options of
                            None \<Rightarrow> True
                          | Some (kind, i) \<Rightarrow> compare_op kind (id' r) i)) src)
      in if asc options then ordered else rev ordered)"

section \<open>The dedup filter as the design describes it\<close>

text \<open>A membership marker is present for an id when the read of its key gives a truthy value.\<close>

definition marked :: "(string \<rightharpoonup> (string \<times> nat)) \<Rightarrow> string \<Rightarrow> bool" where
  "marked kv i = truthy (map_option fst (kv (kvKey i)))"

text \<open>
  The filter in the words of the design: go through the batch in order, with the ids of the
  records before the current one; a record is accepted when its id is not empty, did not
  occur earlier in the batch, and has no membership marker in the store.
\<close>

fun dedup_spec ::
  "(string \<rightharpoonup> (string \<times> nat)) \<Rightarrow> string list \<Rightarrow> AIGLog list \<Rightarrow> AIGLog list" where
  "dedup_spec kv earlier [] = []"
| "dedup_spec kv earlier (r # rs) =
     (if id' r \<noteq> [] \<and> id' r \<notin> set earlier \<and> \<not> marked kv (id' r)
      then r # dedup_spec kv (earlier @ [id' r]) rs
      else dedup_spec kv (earlier @ [id' r]) rs)"

section \<open>Sample data\<close>

text \<open>
  The records of the sample scenario, with its short timestamps and ids: \<open>A\<close> and \<open>B\<close>
  share the timestamp 10, \<open>C\<close> is newer.
  \<open>recA2\<close> repeats the id of \<open>A\<close>, \<open>recN\<close> has no id, \<open>recD\<close> is the newest record.
\<close>

definition recA :: AIGLog where
  "recA = \<lparr>id' = ''1'', created_at = ''10'', payload = ''A''\<rparr>"

definition recB :: AIGLog where
  "recB = \<lparr>id' = ''2'', created_at = ''10'', payload = ''B''\<rparr>"

definition recC :: AIGLog where
  "recC = \<lparr>id' = ''3'', created_at = ''20'', payload = ''C''\<rparr>"

definition recD :: AIGLog where
  "recD = \<lparr>id' = ''4'', created_at = ''30'', payload = ''D''\<rparr>"

definition recA2 :: AIGLog where
  "recA2 = \<lparr>id' = ''1'', created_at = ''10'', payload = ''again''\<rparr>"

definition recN :: AIGLog where
  "recN = \<lparr>id' = [], created_at = ''10'', payload = ''no id''\<rparr>"

text \<open>
  Two collations. The first is the string order itself. The second compares without regard
  to the case of letters and, between strings that differ in case only, puts the lower-case
  letter first, as the root collation of ICU does for ASCII letters.
\<close>

definition code_unit_compare :: "string \<Rightarrow> string \<Rightarrow> int" where
  "code_unit_compare a b = (if a < b then - 1 else if a = b then 0 else 1)"

definition lower :: "char \<Rightarrow> char" where
  "lower c =
     (case map_of (zip ''ABCDEFGHIJKLMNOPQRSTUVWXYZ'' ''abcdefghijklmnopqrstuvwxyz'') c of
        None \<Rightarrow> c
      | Some l \<Rightarrow> l)"

definition collation_key :: "string \<Rightarrow> string \<times> bool list" where
  "collation_key a = (map lower a, map (\<lambda>c. lower c \<noteq> c) a)"

definition case_last_compare :: "string \<Rightarrow> string \<Rightarrow> int" where
  "case_last_compare a b =
     (if collation_key a < collation_key b then - 1
      else if collation_key a = collation_key b then 0 else 1)"

text \<open>
  An environment with the default configuration over a static source, where every
  collaborator answers with success and the collation is the string order.
\<close>

definition sample_env :: "AIGLog list \<Rightarrow> Env" where
  "sample_env src =
     \<lparr>LOGS_PER_PAGE = 50, FORWARD_MAX_PAGES = 20, BACKFILL_MAX_PAGES = 40, DEDUP_TTL_DAYS = 45,
      logs_api = static_source src,
      token_endpoint = TokenOk ''token'',
      insertAll_endpoint = (\<lambda>rows. InsertOk None),
      ids_put_rejects = (\<lambda>k. False),
      localeCompare = code_unit_compare\<rparr>"

text \<open>A store that already holds the membership marker of \<open>B\<close>.\<close>

definition world_B_marked :: World where
  "world_B_marked = empty_world\<lparr>ids := [kvKey ''2'' \<mapsto> (''1'', 3888000)]\<rparr>"

text \<open>A backfill position above \<open>A\<close>, whose membership marker is already in the store.\<close>

definition world_A_marked :: World where
  "world_A_marked =
     empty_world\<lparr>oldest := Some ''20'', ids := [kvKey ''1'' \<mapsto> (''1'', 3888000)]\<rparr>"

text \<open>The sample source, the forward cursor at \<open>A\<close>, and an environment whose sink is down.\<close>

definition sample_src :: "AIGLog list" where
  "sample_src = [recA, recB, recC]"

definition world_cursor_A :: World where
  "world_cursor_A = empty_world\<lparr>forward := Some \<lparr>c_ts = ''10'', c_id = ''1''\<rparr>\<rparr>"

definition sink_down_env :: "AIGLog list \<Rightarrow> Env" where
  "sink_down_env src =
     (sample_env src)\<lparr>insertAll_endpoint := (\<lambda>rows. InsertNotOk 503 ''unavailable'')\<rparr>"

text \<open>An environment whose sink accepts the request and reports an error for the first row.\<close>

definition row_errors_env :: "AIGLog list \<Rightarrow> Env" where
  "row_errors_env src =
     (sample_env src)\<lparr>insertAll_endpoint := (\<lambda>rows. InsertOk (Some [0]))\<rparr>"

text \<open>An environment in which every membership write rejects.\<close>

definition marking_down_env :: "AIGLog list \<Rightarrow> Env" where
  "marking_down_env src = (sample_env src)\<lparr>ids_put_rejects := (\<lambda>k. True)\<rparr>"

text \<open>
  A backfill position above the whole sample source: with the default stop boundary, with a
  boundary below every record, and with a boundary between the records.
\<close>

definition world_oldest_30 :: World where
  "world_oldest_30 = empty_world\<lparr>oldest := Some ''30''\<rparr>"

definition world_oldest_30_stop_05 :: World where
  "world_oldest_30_stop_05 = empty_world\<lparr>oldest := Some ''30'', backfill_stop_at := Some ''05''\<rparr>"

definition world_oldest_30_stop_15 :: World where
  "world_oldest_30_stop_15 = empty_world\<lparr>oldest := Some ''30'', backfill_stop_at := Some ''15''\<rparr>"

text \<open>The sample source after one more record has arrived.\<close>

definition grown_src :: "AIGLog list" where
  "grown_src = [recA, recB, recC, recD]"

text \<open>An environment whose log API answers every request with a server error.\<close>

definition api_down_env :: "AIGLog list \<Rightarrow> Env" where
  "api_down_env src = (sample_env src)\<lparr>logs_api := (\<lambda>q. ApiNotOk 500 ''error'')\<rparr>"


text \<open>
  Two records whose timestamps differ in the case of their letters only, a backfill position
  above both with the stop boundary at the upper-case timestamp, and an environment whose
  collation puts the lower-case timestamp first.
\<close>

definition recX :: AIGLog where
  "recX = \<lparr>id' = ''1'', created_at = ''2024-01-01t00:00:00z'', payload = ''X''\<rparr>"

definition recY :: AIGLog where
  "recY = \<lparr>id' = ''2'', created_at = ''2024-01-01T00:00:00Z'', payload = ''Y''\<rparr>"

definition mixed_src :: "AIGLog list" where
  "mixed_src = [recX, recY]"

definition world_oldest_2025 :: World where
  "world_oldest_2025 =
     empty_world\<lparr>oldest := Some ''2025'', backfill_stop_at := Some ''2024-01-01T00:00:00Z''\<rparr>"

definition case_last_env :: "AIGLog list \<Rightarrow> Env" where
  "case_last_env src = (sample_env src)\<lparr>localeCompare := case_last_compare\<rparr>"

section \<open>Sorting with a comparator\<close>

lemma sort_by_simps [simp]:
  "sort_by cmp [] = []"
  "sort_by cmp (x # xs) = insort_by cmp x (sort_by cmp xs)"
  by (simp_all add: sort_by_def)

lemma set_insort_by [simp]: "set (insort_by cmp x xs) = insert x (set xs)"
  by (induction xs) auto

lemma set_sort_by [simp]: "set (sort_by cmp xs) = set xs"
  by (induction xs) simp_all

lemma sort_by_Nil_iff [simp]: "sort_by cmp xs = [] \<longleftrightarrow> xs = []"
  by (metis set_sort_by set_empty)

lemma insort_by_key:
  assumes "\<forall>y \<in> set ys. (cmp x y \<le> 0) = (f x \<le> f y)"
  shows "insort_by cmp x ys = insort_key f x ys"
  using assms by (induction ys) simp_all

lemma sort_by_key:
  assumes "\<forall>x \<in> set xs. \<forall>y \<in> set xs. (cmp x y \<le> 0) = (f x \<le> f y)"
  shows "sort_by cmp xs = sort_key f xs"
  using assms
proof (induction xs)
  case Nil
  then show ?case by simp
next
  case (Cons x xs)
  then have ih: "sort_by cmp xs = sort_key f xs" by simp
  have "insort_by cmp x (sort_key f xs) = insort_key f x (sort_key f xs)"
    using Cons.prems by (intro insort_by_key) simp
  with ih show ?case by simp
qed

lemma compare_logs_key:
  assumes "collates_as_strings env S"
    and "created_at a \<in> S" "created_at b \<in> S" "id' a \<in> S" "id' b \<in> S"
  shows "(compare_logs env a b \<le> 0) = (log_key a \<le> log_key b)"
proof -
  have ts: "(localeCompare env (created_at a) (created_at b) \<le> 0) = (created_at a \<le> created_at b)"
    "(localeCompare env (created_at a) (created_at b) = 0) = (created_at a = created_at b)"
    using assms(1,2,3) by (simp_all add: collates_as_strings_def)
  have i: "(localeCompare env (id' a) (id' b) \<le> 0) = (id' a \<le> id' b)"
    using assms(1,4,5) by (simp add: collates_as_strings_def)
  show ?thesis
  proof (cases "localeCompare env (created_at a) (created_at b) = 0")
    case True
    with ts(2) i show ?thesis
      by (simp add: compare_logs_def log_key_def less_eq_prod_def)
  next
    case False
    with ts show ?thesis
      by (auto simp: compare_logs_def log_key_def less_eq_prod_def)
  qed
qed

lemma sort_logs_as_strings:
  assumes "collates_as_strings env (created_at ` set batch \<union> id' ` set batch)"
  shows "sort_by (compare_logs env) batch = sort_key log_key batch"
proof (rule sort_by_key, intro ballI)
  fix x y
  assume "x \<in> set batch" "y \<in> set batch"
  then show "(compare_logs env x y \<le> 0) = (log_key x \<le> log_key y)"
    by (intro compare_logs_key [OF assms]) auto
qed

lemma collates_code_units:
  "localeCompare env = code_unit_compare \<Longrightarrow> collates_as_strings env S"
  by (auto simp: collates_as_strings_def code_unit_compare_def)

lemma collates_subset:
  "collates_as_strings env S \<Longrightarrow> T \<subseteq> S \<Longrightarrow> collates_as_strings env T"
  by (auto simp: collates_as_strings_def)

section \<open>Fetching from a static source\<close>

lemma source_matching_page:
  "source_matching src (page_request env options p) = source_matching src (page_request env options 1)"
  by (simp add: source_matching_def page_request_def)

lemma static_source_page:
  "static_source src (page_request env options p) =
     ApiOk \<lparr>result = Some (take (LOGS_PER_PAGE env) (drop ((p - 1) * LOGS_PER_PAGE env)
                (source_matching src (page_request env options 1)))),
            success = True, errors = []\<rparr>"
  unfolding static_source_def source_matching_page [of src env options p]
  by (simp add: page_request_def)

lemma take_pages_done:
  fixes L :: "'a list"
  assumes "take n (drop ((p - 1) * n) L) = []" "p \<le> m + 1"
  shows "take ((p - 1) * n) L = take (m * n) L"
proof (cases "n = 0")
  case True
  then show ?thesis by simp
next
  case False
  with assms(1) have "length L \<le> (p - 1) * n" by simp
  moreover have "(p - 1) * n \<le> m * n"
    using assms(2) by (intro mult_le_mono1) arith
  ultimately have a: "length L \<le> (p - 1) * n" and b: "length L \<le> m * n" by linarith+
  show ?thesis unfolding take_all [OF a] take_all [OF b] ..
qed

lemma take_pages_short:
  fixes L :: "'a list"
  assumes "length (take n (drop ((p - 1) * n) L)) < n" "1 \<le> p" "p \<le> m"
  shows "take ((p - 1) * n) L @ take n (drop ((p - 1) * n) L) = take (m * n) L"
proof -
  have pn: "(p - 1) * n + n = p * n" using assms(2) by (cases p) simp_all
  from assms(1) have "length L - (p - 1) * n < n" by simp
  then have "length L < p * n" using pn by linarith
  moreover have "p * n \<le> m * n" using assms(3) by (rule mult_le_mono1)
  ultimately have a: "length L \<le> p * n" and b: "length L \<le> m * n" by linarith+
  have "take ((p - 1) * n) L @ take n (drop ((p - 1) * n) L) = take (p * n) L"
    using take_add [of "(p - 1) * n" n L] pn by simp
  then show ?thesis unfolding take_all [OF a] take_all [OF b] .
qed

lemma take_pages_next:
  fixes L :: "'a list"
  assumes "1 \<le> p"
  shows "take ((p - 1) * n) L @ take n (drop ((p - 1) * n) L) = take ((p + 1 - 1) * n) L"
proof -
  have pn: "(p - 1) * n + n = p * n" using assms by (cases p) simp_all
  show ?thesis using take_add [of "(p - 1) * n" n L] pn by simp
qed

lemma fetchLogs_loop_ok_step:
  assumes "p \<le> maxPages options"
    and "logs_api env (page_request env options p) =
           ApiOk \<lparr>result = Some logs, success = True, errors = []\<rparr>"
  shows "fetchLogs_loop env options p allLogs =
           (if logs = [] then Inr allLogs
            else if length logs < LOGS_PER_PAGE env then Inr (allLogs @ logs)
            else fetchLogs_loop env options (p + 1) (allLogs @ logs))"
  using assms by (subst fetchLogs_loop.simps) (simp add: Let_def)

lemma fetchLogs_loop_static:
  assumes api: "logs_api env = static_source src"
  shows "1 \<le> p \<Longrightarrow> p \<le> maxPages options + 1 \<Longrightarrow>
         allLogs = take ((p - 1) * LOGS_PER_PAGE env) (source_matching src (page_request env options 1)) \<Longrightarrow>
         fetchLogs_loop env options p allLogs =
           Inr (take (maxPages options * LOGS_PER_PAGE env) (source_matching src (page_request env options 1)))"
  using api
proof (induction env options p allLogs rule: fetchLogs_loop.induct)
  case (1 env options p allLogs)
  define n where "n = LOGS_PER_PAGE env"
  define L where "L = source_matching src (page_request env options 1)"
  define logs where "logs = take n (drop ((p - 1) * n) L)"
  have resp: "logs_api env (page_request env options p) =
      ApiOk \<lparr>result = Some logs, success = True, errors = []\<rparr>"
    using "1.prems"(4) by (simp add: static_source_page logs_def n_def L_def)
  have all: "allLogs = take ((p - 1) * n) L"
    using "1.prems"(3) by (simp add: n_def L_def)
  have "fetchLogs_loop env options p allLogs = Inr (take (maxPages options * n) L)"
  proof (cases "p \<le> maxPages options")
    case False
    with "1.prems"(2) have "p - 1 = maxPages options" by simp
    with False all show ?thesis
      by (subst fetchLogs_loop.simps) simp
  next
    case le: True
    note step = fetchLogs_loop_ok_step [OF le resp, of allLogs]
    show ?thesis
    proof (cases "logs = []")
      case True
      then have "take ((p - 1) * n) L = take (maxPages options * n) L"
        unfolding logs_def using "1.prems"(2) by (rule take_pages_done)
      with True all show ?thesis unfolding step by simp
    next
      case nonempty: False
      show ?thesis
      proof (cases "length logs < n")
        case True
        then have "take ((p - 1) * n) L @ logs = take (maxPages options * n) L"
          unfolding logs_def using "1.prems"(1) le by (rule take_pages_short)
        with True nonempty all show ?thesis unfolding step n_def by simp
      next
        case False
        have next_inv: "allLogs @ logs = take ((p + 1 - 1) * n) L"
          unfolding all logs_def using "1.prems"(1) by (rule take_pages_next)
        have xeq: "logs = (case result \<lparr>result = Some logs, success = True, errors = []\<rparr> of
                  None \<Rightarrow> [] | Some l \<Rightarrow> l)" by simp
        have ih: "fetchLogs_loop env options (p + 1) (allLogs @ logs) =
                Inr (take (maxPages options * n) L)"
          unfolding n_def L_def
        proof (rule "1.IH" [OF le resp _ xeq])
          show "\<not> \<not> success \<lparr>result = Some logs, success = True, errors = []\<rparr>" by simp
          show "length logs \<noteq> 0" using nonempty by simp
          show "\<not> length logs < LOGS_PER_PAGE env" using False by (simp add: n_def)
          show "1 \<le> p + 1" by simp
          show "p + 1 \<le> maxPages options + 1" using le by simp
          show "logs_api env = static_source src" by (rule "1.prems"(4))
          show "allLogs @ logs =
             take ((p + 1 - 1) * LOGS_PER_PAGE env) (source_matching src (page_request env options 1))"
            using next_inv by (simp add: n_def L_def)
        qed
        with False nonempty show ?thesis unfolding step n_def by simp
      qed
    qed
  qed
  then show ?case by (simp add: n_def L_def)
qed

lemma source_matching_selected:
  "source_matching src (page_request env options p) = selected src options"
proof -
  have "(\<lambda>r. list_all (\<lambda>f. filter_holds f r) (filters (page_request env options p))) =
        (\<lambda>r. compare_op (op options) (created_at r) (ts options) \<and>
              (case idCmp options of None \<Rightarrow> True | Some (kind, i) \<Rightarrow> compare_op kind (id' r) i))"
    by (auto simp: page_request_def filter_holds_def fun_eq_iff split: option.splits)
  then show ?thesis
    by (simp add: source_matching_def selected_def) (simp add: page_request_def)
qed

lemma fetchLogs_static:
  assumes "logs_api env = static_source src"
  shows "fetchLogs env options =
           Inr (take (maxPages options * LOGS_PER_PAGE env) (selected src options))"
  unfolding fetchLogs_def
  using fetchLogs_loop_static [OF assms, of 1 options "[]"]
  by (simp add: source_matching_selected)

section \<open>Properties of the dedup filter\<close>

lemma dedup_loop_spec:
  "seen = set earlier - {[]} \<Longrightarrow>
   dedup_loop kv seen out logs = out @ dedup_spec kv earlier logs"
proof (induction logs arbitrary: seen out earlier)
  case Nil
  then show ?case by simp
next
  case (Cons r rs)
  have next_seen: "insert (id' r) seen = set (earlier @ [id' r]) - {[]}" if "id' r \<noteq> []"
    using that Cons.prems by auto
  have same_seen: "seen = set (earlier @ [id' r]) - {[]}" if "id' r = [] \<or> id' r \<in> seen"
    using that Cons.prems by auto
  show ?case
  proof (cases "id' r = [] \<or> id' r \<in> seen")
    case True
    then have "id' r = [] \<or> id' r \<in> set earlier" using Cons.prems by auto
    with True Cons.IH [OF same_seen [OF True], of out] show ?thesis by auto
  next
    case False
    then have ne: "id' r \<noteq> []" and new: "id' r \<notin> set earlier"
      using Cons.prems by auto
    from False ne new Cons.IH [OF next_seen [OF ne]] show ?thesis
      by (simp add: marked_def)
  qed
qed

lemma dedup_spec_subseq: "subseq (dedup_spec kv earlier logs) logs"
  by (induction logs arbitrary: earlier) auto

lemma dedup_spec_accepted:
  "r \<in> set (dedup_spec kv earlier logs) \<Longrightarrow>
     r \<in> set logs \<and> id' r \<noteq> [] \<and> id' r \<notin> set earlier \<and> \<not> marked kv (id' r)"
proof (induction logs arbitrary: earlier)
  case Nil
  then show ?case by simp
next
  case (Cons x xs)
  show ?case
  proof (cases "r \<in> set (dedup_spec kv (earlier @ [id' x]) xs)")
    case True
    from Cons.IH [OF True] show ?thesis by simp
  next
    case False
    with Cons.prems show ?thesis by (simp split: if_splits)
  qed
qed

lemma dedup_spec_distinct: "distinct (map id' (dedup_spec kv earlier logs))"
proof (induction logs arbitrary: earlier)
  case Nil
  then show ?case by simp
next
  case (Cons r rs)
  have "id' r \<notin> id' ` set (dedup_spec kv (earlier @ [id' r]) rs)"
  proof
    assume "id' r \<in> id' ` set (dedup_spec kv (earlier @ [id' r]) rs)"
    then obtain x where "x \<in> set (dedup_spec kv (earlier @ [id' r]) rs)" "id' x = id' r"
      by auto
    with dedup_spec_accepted [of x kv "earlier @ [id' r]" rs] show False by simp
  qed
  with Cons.IH [of "earlier @ [id' r]"] show ?case by simp
qed

lemma dedup_spec_complete:
  "r \<in> set logs \<Longrightarrow> id' r \<noteq> [] \<Longrightarrow> id' r \<notin> set earlier \<Longrightarrow> \<not> marked kv (id' r) \<Longrightarrow>
     id' r \<in> id' ` set (dedup_spec kv earlier logs)"
proof (induction logs arbitrary: earlier)
  case Nil
  then show ?case by simp
next
  case (Cons x xs)
  show ?case
  proof (cases "id' x = id' r")
    case True
    with Cons.prems show ?thesis by simp
  next
    case False
    with Cons.prems have "r \<in> set xs" "id' r \<notin> set (earlier @ [id' x])" by auto
    from Cons.IH [OF this(1) Cons.prems(2) this(2) Cons.prems(4)] show ?thesis by auto
  qed
qed

lemma kvPromises_frame:
  "forward (kvPromises env ttl out w) = forward w \<and>
   oldest (kvPromises env ttl out w) = oldest w \<and>
   backfill_stop_at (kvPromises env ttl out w) = backfill_stop_at w \<and>
   posted (kvPromises env ttl out w) = posted w"
  by (induction out arbitrary: w) (auto simp: ids_put_def split: prod.splits sum.splits)

lemma kvPromises_ids:
  "ids (kvPromises env ttl out w) k =
     (if k \<in> kvKey ` id' ` set out \<and> \<not> ids_put_rejects env k then Some (''1'', ttl)
      else ids w k)"
  by (induction out arbitrary: w) (auto simp: ids_put_def split: prod.splits sum.splits)

lemma dedupAndFilter_output:
  "fst (dedupAndFilter env logs w) = dedup_spec (ids w) [] logs"
  using dedup_loop_spec [of "{}" "[]" "ids w" "[]" logs]
  by (simp add: dedupAndFilter_def Let_def)

lemma dedupAndFilter_frame:
  "forward (snd (dedupAndFilter env logs w)) = forward w \<and>
   oldest (snd (dedupAndFilter env logs w)) = oldest w \<and>
   backfill_stop_at (snd (dedupAndFilter env logs w)) = backfill_stop_at w \<and>
   posted (snd (dedupAndFilter env logs w)) = posted w"
  by (simp add: dedupAndFilter_def Let_def kvPromises_frame)

lemma dedupAndFilter_ids:
  "ids (snd (dedupAndFilter env logs w)) k =
     (if k \<in> kvKey ` id' ` set (dedup_spec (ids w) [] logs) \<and> \<not> ids_put_rejects env k
      then Some (''1'', DEDUP_TTL_DAYS env * 24 * 60 * 60)
      else ids w k)"
  using dedup_loop_spec [of "{}" "[]" "ids w" "[]" logs]
  by (simp add: dedupAndFilter_def Let_def kvPromises_ids)

lemma dedupAndFilter_empty_world:
  "fst (dedupAndFilter env logs w) = [] \<Longrightarrow> snd (dedupAndFilter env logs w) = w"
  by (simp add: dedupAndFilter_def Let_def split: if_splits)

section \<open>The sink writer and the cycles, case by case\<close>

lemma bqInsertAll_frame:
  "forward (snd (bqInsertAll env logs w)) = forward w \<and>
   oldest (snd (bqInsertAll env logs w)) = oldest w \<and>
   backfill_stop_at (snd (bqInsertAll env logs w)) = backfill_stop_at w \<and>
   ids (snd (bqInsertAll env logs w)) = ids w"
  by (simp add: bqInsertAll_def Let_def split: sum.splits insert_response.splits)

lemma bqInsertAll_outcome: "fst (bqInsertAll env logs w) = sink_outcome env logs"
  by (simp add: sink_outcome_def bqInsertAll_def Let_def split: sum.splits insert_response.splits)

lemma bqInsertAll_ok_world:
  "sink_outcome env logs = Inr () \<Longrightarrow> logs \<noteq> [] \<Longrightarrow>
     snd (bqInsertAll env logs w) = w\<lparr>posted := posted w @ [logs]\<rparr>"
  by (auto simp: sink_outcome_def bqInsertAll_def Let_def split: sum.splits insert_response.splits)

lemma sink_outcome_cases:
  "logs \<noteq> [] \<Longrightarrow> sink_outcome env logs =
     (case token_endpoint env of
        TokenNotOk status errorText \<Rightarrow> Inl (GoogleTokenError status errorText)
      | TokenOk t \<Rightarrow>
          (case insertAll_endpoint env logs of
             InsertRejected m \<Rightarrow> Inl (NetworkError m)
           | InsertNotOk status errorText \<Rightarrow> Inl (BigQueryHttpError status errorText)
           | InsertOk insertErrors \<Rightarrow> Inr ()))"
  by (simp add: sink_outcome_def bqInsertAll_def getGoogleAccessToken_def Let_def
      split: token_response.splits insert_response.splits)

lemma runForward_fetch_error:
  "forward_fetch env now w = Inl e \<Longrightarrow> runForward env now w = (Inl e, w)"
  by (auto simp: forward_fetch_def runForward_def lastTs_of_def lastId_of_def Let_def
      split: sum.splits)

lemma runForward_nothing:
  "forward_fetch env now w = Inr allLogs \<Longrightarrow> fst (dedupAndFilter env allLogs w) = [] \<Longrightarrow>
     runForward env now w = (Inr (), w)"
  using dedupAndFilter_empty_world [of env allLogs w]
  by (auto simp: forward_fetch_def runForward_def lastTs_of_def lastId_of_def Let_def
      split: sum.splits prod.splits)

lemma runForward_sink_error:
  "forward_fetch env now w = Inr allLogs \<Longrightarrow> fst (dedupAndFilter env allLogs w) = toSend \<Longrightarrow>
   toSend \<noteq> [] \<Longrightarrow> sink_outcome env toSend = Inl e \<Longrightarrow>
     runForward env now w = (Inl e, snd (bqInsertAll env toSend (snd (dedupAndFilter env allLogs w))))"
  using bqInsertAll_outcome [of env toSend "snd (dedupAndFilter env allLogs w)"]
  by (auto simp: forward_fetch_def runForward_def lastTs_of_def lastId_of_def Let_def
      split: sum.splits prod.splits)

lemma runForward_commit:
  "forward_fetch env now w = Inr allLogs \<Longrightarrow> fst (dedupAndFilter env allLogs w) = toSend \<Longrightarrow>
   toSend \<noteq> [] \<Longrightarrow> sink_outcome env toSend = Inr () \<Longrightarrow>
     runForward env now w =
       (Inr (), (snd (dedupAndFilter env allLogs w))
          \<lparr>posted := posted w @ [toSend],
           forward := Some \<lparr>c_ts = created_at (last toSend), c_id = id' (last toSend)\<rparr>,
           oldest := (if truthy (oldest w) then oldest w else Some (created_at (hd toSend)))\<rparr>)"
  using bqInsertAll_outcome [of env toSend "snd (dedupAndFilter env allLogs w)"]
    bqInsertAll_ok_world [of env toSend "snd (dedupAndFilter env allLogs w)"]
    dedupAndFilter_frame [of env allLogs w]
  by (auto simp: forward_fetch_def runForward_def lastTs_of_def lastId_of_def Let_def
      split: sum.splits prod.splits)

lemma runBackfill_no_marker:
  "\<not> truthy (oldest w) \<Longrightarrow> runBackfill env w = (Inr (), w)"
  by (auto simp: runBackfill_def truthy_def split: option.splits)

lemma runBackfill_fetch_error:
  "oldest w = Some t \<Longrightarrow> t \<noteq> [] \<Longrightarrow> fetchLogs env (backfill_options env t) = Inl e \<Longrightarrow>
     runBackfill env w = (Inl e, w)"
  by (simp add: runBackfill_def truthy_def Let_def)

lemma runBackfill_complete:
  "oldest w = Some t \<Longrightarrow> t \<noteq> [] \<Longrightarrow> fetchLogs env (backfill_options env t) = Inr [] \<Longrightarrow>
     runBackfill env w = (Inr (), w\<lparr>oldest := None\<rparr>)"
  by (simp add: runBackfill_def truthy_def Let_def)

lemma runBackfill_nothing:
  "oldest w = Some t \<Longrightarrow> t \<noteq> [] \<Longrightarrow> fetchLogs env (backfill_options env t) = Inr batch \<Longrightarrow>
   batch \<noteq> [] \<Longrightarrow> fst (dedupAndFilter env (sort_by (compare_logs env) batch) w) = [] \<Longrightarrow>
     runBackfill env w = (Inr (), w)"
  using dedupAndFilter_empty_world [of env "sort_by (compare_logs env) batch" w]
  by (auto simp: runBackfill_def truthy_def Let_def split: prod.splits)

lemma runBackfill_sink_error:
  "oldest w = Some t \<Longrightarrow> t \<noteq> [] \<Longrightarrow> fetchLogs env (backfill_options env t) = Inr batch \<Longrightarrow>
   batch \<noteq> [] \<Longrightarrow> fst (dedupAndFilter env (sort_by (compare_logs env) batch) w) = toSend \<Longrightarrow>
   toSend \<noteq> [] \<Longrightarrow> sink_outcome env toSend = Inl e \<Longrightarrow>
     runBackfill env w =
       (Inl e, snd (bqInsertAll env toSend (snd (dedupAndFilter env (sort_by (compare_logs env) batch) w))))"
  using bqInsertAll_outcome [of env toSend "snd (dedupAndFilter env (sort_by (compare_logs env) batch) w)"]
  by (auto simp: runBackfill_def truthy_def Let_def split: prod.splits sum.splits)

lemma runBackfill_advance:
  "oldest w = Some t \<Longrightarrow> t \<noteq> [] \<Longrightarrow> fetchLogs env (backfill_options env t) = Inr batch \<Longrightarrow>
   batch \<noteq> [] \<Longrightarrow> fst (dedupAndFilter env (sort_by (compare_logs env) batch) w) = toSend \<Longrightarrow>
   toSend \<noteq> [] \<Longrightarrow> sink_outcome env toSend = Inr () \<Longrightarrow>
     runBackfill env w =
       (Inr (), (snd (dedupAndFilter env (sort_by (compare_logs env) batch) w))
          \<lparr>posted := posted w @ [toSend],
           oldest := (if created_at (hd toSend) \<le> stopAt_of w then None
                      else Some (created_at (hd toSend)))\<rparr>)"
  using bqInsertAll_outcome [of env toSend "snd (dedupAndFilter env (sort_by (compare_logs env) batch) w)"]
    bqInsertAll_ok_world [of env toSend "snd (dedupAndFilter env (sort_by (compare_logs env) batch) w)"]
    dedupAndFilter_frame [of env "sort_by (compare_logs env) batch" w]
  by (auto simp: runBackfill_def truthy_def stopAt_of_def Let_def split: prod.splits sum.splits)

section \<open>Evaluating the sample data\<close>

lemma sample_env_simps [simp]:
  "LOGS_PER_PAGE (sample_env src) = 50"
  "FORWARD_MAX_PAGES (sample_env src) = 20"
  "BACKFILL_MAX_PAGES (sample_env src) = 40"
  "DEDUP_TTL_DAYS (sample_env src) = 45"
  "logs_api (sample_env src) = static_source src"
  "token_endpoint (sample_env src) = TokenOk ''token''"
  "insertAll_endpoint (sample_env src) = (\<lambda>rows. InsertOk None)"
  "ids_put_rejects (sample_env src) = (\<lambda>k. False)"
  "localeCompare (sample_env src) = code_unit_compare"
  by (simp_all add: sample_env_def)

lemma options_maxPages [simp]:
  "maxPages (phase1_options lastTs lastId) = 5"
  "maxPages (phase2_options env lastTs) = FORWARD_MAX_PAGES env"
  "maxPages (backfill_options env oldestTs) = BACKFILL_MAX_PAGES env"
  by (simp_all add: phase1_options_def phase2_options_def backfill_options_def)

lemma selected_phase1:
  "selected src (phase1_options lastTs lastId) =
     sort_key log_key (filter (\<lambda>r. created_at r = lastTs \<and> lastId < id' r) src)"
  by (simp add: selected_def phase1_options_def compare_op_def)

lemma selected_phase2:
  "selected src (phase2_options env lastTs) =
     sort_key log_key (filter (\<lambda>r. lastTs < created_at r) src)"
  by (simp add: selected_def phase2_options_def compare_op_def)

lemma selected_backfill:
  "selected src (backfill_options env oldestTs) =
     rev (sort_key log_key (filter (\<lambda>r. created_at r < oldestTs) src))"
  by (simp add: selected_def backfill_options_def compare_op_def)

lemma sample_selected_backfill_A: "selected [recA] (backfill_options env ''20'') = [recA]"
  by (simp add: selected_backfill recA_def log_key_def)

lemma sample_backfill_fetch_A: "fetchLogs (sample_env [recA]) (backfill_options (sample_env [recA]) ''20'') = Inr [recA]"
  by (simp add: fetchLogs_static [of _ "[recA]"] sample_selected_backfill_A)

lemma sample_dedup_A_marked:
  "fst (dedupAndFilter (sample_env [recA]) (sort_by (compare_logs (sample_env [recA])) [recA])
     world_A_marked) = []"
  by (simp add: dedupAndFilter_output world_A_marked_def empty_world_def recA_def marked_def truthy_def kvKey_def)

section \<open>What a forward cycle can do\<close>

lemma runForward_cases:
  obtains
    (fetch_error) e where "forward_fetch env now w = Inl e" "runForward env now w = (Inl e, w)"
  | (nothing) allLogs where "forward_fetch env now w = Inr allLogs"
      "fst (dedupAndFilter env allLogs w) = []" "runForward env now w = (Inr (), w)"
  | (sink_error) allLogs e where "forward_fetch env now w = Inr allLogs"
      "fst (dedupAndFilter env allLogs w) \<noteq> []"
      "sink_outcome env (fst (dedupAndFilter env allLogs w)) = Inl e"
      "runForward env now w =
         (Inl e, snd (bqInsertAll env (fst (dedupAndFilter env allLogs w))
                        (snd (dedupAndFilter env allLogs w))))"
  | (commit) allLogs where "forward_fetch env now w = Inr allLogs"
      "fst (dedupAndFilter env allLogs w) \<noteq> []"
      "sink_outcome env (fst (dedupAndFilter env allLogs w)) = Inr ()"
      "runForward env now w =
         (Inr (), (snd (dedupAndFilter env allLogs w))
            \<lparr>posted := posted w @ [fst (dedupAndFilter env allLogs w)],
             forward := Some \<lparr>c_ts = created_at (last (fst (dedupAndFilter env allLogs w))),
                              c_id = id' (last (fst (dedupAndFilter env allLogs w)))\<rparr>,
             oldest := (if truthy (oldest w) then oldest w
                        else Some (created_at (hd (fst (dedupAndFilter env allLogs w)))))\<rparr>)"
proof (cases "forward_fetch env now w")
  case (Inl e)
  then show ?thesis by (rule that(1)) (rule runForward_fetch_error [OF Inl])
next
  case fetched: (Inr allLogs)
  show ?thesis
  proof (cases "fst (dedupAndFilter env allLogs w) = []")
    case True
    with fetched show ?thesis by (rule that(2)) (rule runForward_nothing [OF fetched True])
  next
    case False
    show ?thesis
    proof (cases "sink_outcome env (fst (dedupAndFilter env allLogs w))")
      case (Inl e)
      with fetched False show ?thesis
        by (rule that(3)) (rule runForward_sink_error [OF fetched refl False Inl])
    next
      case (Inr u)
      then have ok: "sink_outcome env (fst (dedupAndFilter env allLogs w)) = Inr ()" by simp
      with fetched False show ?thesis
        by (rule that(4)) (rule runForward_commit [OF fetched refl False ok])
    qed
  qed
qed

lemma sink_error_frame:
  "forward (snd (bqInsertAll env toSend (snd (dedupAndFilter env logs w)))) = forward w \<and>
   oldest (snd (bqInsertAll env toSend (snd (dedupAndFilter env logs w)))) = oldest w \<and>
   backfill_stop_at (snd (bqInsertAll env toSend (snd (dedupAndFilter env logs w)))) =
     backfill_stop_at w"
  by (simp add: bqInsertAll_frame dedupAndFilter_frame)

lemma runForward_error_frame:
  assumes "fst (runForward env now w) = Inl e"
  shows "forward (snd (runForward env now w)) = forward w \<and>
         oldest (snd (runForward env now w)) = oldest w"
  using assms by (cases env now w rule: runForward_cases) (simp_all add: sink_error_frame)

lemma runForward_cursor_moved:
  assumes "forward (snd (runForward env now w)) \<noteq> forward w"
  shows "\<exists>allLogs. forward_fetch env now w = Inr allLogs \<and>
           fst (dedupAndFilter env allLogs w) \<noteq> [] \<and>
           sink_outcome env (fst (dedupAndFilter env allLogs w)) = Inr () \<and>
           fst (runForward env now w) = Inr () \<and>
           posted (snd (runForward env now w)) = posted w @ [fst (dedupAndFilter env allLogs w)] \<and>
           forward (snd (runForward env now w)) =
             Some \<lparr>c_ts = created_at (last (fst (dedupAndFilter env allLogs w))),
                   c_id = id' (last (fst (dedupAndFilter env allLogs w)))\<rparr>"
  using assms by (cases env now w rule: runForward_cases) (simp_all add: sink_error_frame)

lemma runForward_committed:
  assumes "forward_fetch env now w = Inr allLogs"
    and "fst (dedupAndFilter env allLogs w) \<noteq> []"
    and "sink_outcome env (fst (dedupAndFilter env allLogs w)) = Inr ()"
  shows "fst (runForward env now w) = Inr () \<and>
         posted (snd (runForward env now w)) = posted w @ [fst (dedupAndFilter env allLogs w)] \<and>
         forward (snd (runForward env now w)) =
             Some \<lparr>c_ts = created_at (last (fst (dedupAndFilter env allLogs w))),
                   c_id = id' (last (fst (dedupAndFilter env allLogs w)))\<rparr>"
  using runForward_commit [OF assms(1) refl assms(2,3)] by simp

lemma sink_down_env_simps [simp]:
  "LOGS_PER_PAGE (sink_down_env src) = 50"
  "FORWARD_MAX_PAGES (sink_down_env src) = 20"
  "BACKFILL_MAX_PAGES (sink_down_env src) = 40"
  "DEDUP_TTL_DAYS (sink_down_env src) = 45"
  "logs_api (sink_down_env src) = static_source src"
  "token_endpoint (sink_down_env src) = TokenOk ''token''"
  "insertAll_endpoint (sink_down_env src) = (\<lambda>rows. InsertNotOk 503 ''unavailable'')"
  "ids_put_rejects (sink_down_env src) = (\<lambda>k. False)"
  "localeCompare (sink_down_env src) = code_unit_compare"
  by (simp_all add: sink_down_env_def)

lemma sample_records [simp]:
  "id' recA = ''1''" "created_at recA = ''10''"
  "id' recB = ''2''" "created_at recB = ''10''"
  "id' recC = ''3''" "created_at recC = ''20''"
  "id' recD = ''4''" "created_at recD = ''30''"
  "id' recA2 = ''1''" "created_at recA2 = ''10''"
  "id' recN = []" "created_at recN = ''10''"
  by (simp_all add: recA_def recB_def recC_def recD_def recA2_def recN_def)

lemma sample_forward_fetch:
  assumes "logs_api env = static_source sample_src"
    and "LOGS_PER_PAGE env = 50" and "FORWARD_MAX_PAGES env = 20"
  shows "forward_fetch env now world_cursor_A = Inr [recB, recC]"
proof -
  have pos: "lastTs_of now world_cursor_A = ''10''" "lastId_of world_cursor_A = ''1''"
    by (simp_all add: lastTs_of_def lastId_of_def world_cursor_A_def empty_world_def)
  have "selected sample_src (phase1_options ''10'' ''1'') = [recB]"
    by (simp add: selected_phase1 sample_src_def)
  then have p1: "fetchLogs env (phase1_options ''10'' ''1'') = Inr [recB]"
    by (simp add: fetchLogs_static [OF assms(1)] assms(2))
  have "selected sample_src (phase2_options env ''10'') = [recC]"
    by (simp add: selected_phase2 sample_src_def)
  then have p2: "fetchLogs env (phase2_options env ''10'') = Inr [recC]"
    by (simp add: fetchLogs_static [OF assms(1)] assms(2,3))
  show ?thesis by (simp add: forward_fetch_def pos p1 p2)
qed

lemma sample_forward_dedup:
  "fst (dedupAndFilter env [recB, recC] world_cursor_A) = [recB, recC]"
  by (simp add: dedupAndFilter_output world_cursor_A_def empty_world_def marked_def truthy_def)

lemma sample_sink_ok: "logs \<noteq> [] \<Longrightarrow> sink_outcome (sample_env src) logs = Inr ()"
  by (simp add: sink_outcome_cases)

lemma sample_sink_down:
  "logs \<noteq> [] \<Longrightarrow> sink_outcome (sink_down_env src) logs = Inl (BigQueryHttpError 503 ''unavailable'')"
  by (simp add: sink_outcome_cases)

section \<open>What a backfill cycle can do\<close>

lemma runBackfill_cases:
  obtains
    (no_marker) "\<not> truthy (oldest w)" "runBackfill env w = (Inr (), w)"
  | (fetch_error) t e where "oldest w = Some t" "t \<noteq> []"
      "fetchLogs env (backfill_options env t) = Inl e" "runBackfill env w = (Inl e, w)"
  | (complete) t where "oldest w = Some t" "t \<noteq> []"
      "fetchLogs env (backfill_options env t) = Inr []"
      "runBackfill env w = (Inr (), w\<lparr>oldest := None\<rparr>)"
  | (nothing) t batch where "oldest w = Some t" "t \<noteq> []"
      "fetchLogs env (backfill_options env t) = Inr batch" "batch \<noteq> []"
      "fst (dedupAndFilter env (sort_by (compare_logs env) batch) w) = []"
      "runBackfill env w = (Inr (), w)"
  | (sink_error) t batch e where "oldest w = Some t" "t \<noteq> []"
      "fetchLogs env (backfill_options env t) = Inr batch" "batch \<noteq> []"
      "fst (dedupAndFilter env (sort_by (compare_logs env) batch) w) \<noteq> []"
      "sink_outcome env (fst (dedupAndFilter env (sort_by (compare_logs env) batch) w)) = Inl e"
      "runBackfill env w =
         (Inl e, snd (bqInsertAll env (fst (dedupAndFilter env (sort_by (compare_logs env) batch) w))
                        (snd (dedupAndFilter env (sort_by (compare_logs env) batch) w))))"
  | (advance) t batch where "oldest w = Some t" "t \<noteq> []"
      "fetchLogs env (backfill_options env t) = Inr batch" "batch \<noteq> []"
      "fst (dedupAndFilter env (sort_by (compare_logs env) batch) w) \<noteq> []"
      "sink_outcome env (fst (dedupAndFilter env (sort_by (compare_logs env) batch) w)) = Inr ()"
      "runBackfill env w =
         (Inr (), (snd (dedupAndFilter env (sort_by (compare_logs env) batch) w))
            \<lparr>posted := posted w @ [fst (dedupAndFilter env (sort_by (compare_logs env) batch) w)],
             oldest :=
               (if created_at (hd (fst (dedupAndFilter env (sort_by (compare_logs env) batch) w))) \<le> stopAt_of w
                then None
                else Some (created_at (hd (fst (dedupAndFilter env (sort_by (compare_logs env) batch) w)))))\<rparr>)"
proof (cases "truthy (oldest w)")
  case False
  then show ?thesis by (rule that(1)) (rule runBackfill_no_marker [OF False])
next
  case True
  then obtain t where t: "oldest w = Some t" and ne: "t \<noteq> []"
    by (auto simp: truthy_def split: option.splits)
  show ?thesis
  proof (cases "fetchLogs env (backfill_options env t)")
    case (Inl e)
    with t ne show ?thesis by (rule that(2)) (rule runBackfill_fetch_error [OF t ne Inl])
  next
    case fetched: (Inr batch)
    show ?thesis
    proof (cases "batch = []")
      case True
      with fetched have empty: "fetchLogs env (backfill_options env t) = Inr []" by simp
      with t ne show ?thesis by (rule that(3)) (rule runBackfill_complete [OF t ne empty])
    next
      case nonempty: False
      show ?thesis
      proof (cases "fst (dedupAndFilter env (sort_by (compare_logs env) batch) w) = []")
        case True
        with t ne fetched nonempty show ?thesis
          by (rule that(4)) (rule runBackfill_nothing [OF t ne fetched nonempty True])
      next
        case False
        show ?thesis
        proof (cases "sink_outcome env (fst (dedupAndFilter env (sort_by (compare_logs env) batch) w))")
          case (Inl e)
          with t ne fetched nonempty False show ?thesis
            by (rule that(5)) (rule runBackfill_sink_error [OF t ne fetched nonempty refl False Inl])
        next
          case (Inr u)
          then have ok: "sink_outcome env (fst (dedupAndFilter env (sort_by (compare_logs env) batch) w)) = Inr ()"
            by simp
          with t ne fetched nonempty False show ?thesis
            by (rule that(6)) (rule runBackfill_advance [OF t ne fetched nonempty refl False ok])
        qed
      qed
    qed
  qed
qed

lemma runBackfill_error_frame:
  assumes "fst (runBackfill env w) = Inl e"
  shows "forward (snd (runBackfill env w)) = forward w \<and>
         oldest (snd (runBackfill env w)) = oldest w"
  using assms by (cases env w rule: runBackfill_cases) (simp_all add: sink_error_frame)

lemma runBackfill_forward_frame:
  "forward (snd (runBackfill env w)) = forward w \<and>
   backfill_stop_at (snd (runBackfill env w)) = backfill_stop_at w"
  by (cases env w rule: runBackfill_cases) (simp_all add: sink_error_frame dedupAndFilter_frame)

section \<open>The result of a cycle, field by field\<close>

lemma sink_ok_token: "sink_outcome env logs = Inr () \<Longrightarrow> logs \<noteq> [] \<Longrightarrow> \<exists>t. token_endpoint env = TokenOk t"
  by (auto simp: sink_outcome_cases split: token_response.splits)

lemma bqInsertAll_posted_token:
  "posted (snd (bqInsertAll env logs w)) =
     (if logs \<noteq> [] \<and> (\<exists>t. token_endpoint env = TokenOk t) then posted w @ [logs] else posted w)"
  by (auto simp: bqInsertAll_def getGoogleAccessToken_def Let_def
      split: sum.splits insert_response.splits token_response.splits)

lemma runForward_outcome:
  "fst (runForward env now w) =
     (case forward_fetch env now w of
        Inl e \<Rightarrow> Inl e
      | Inr allLogs \<Rightarrow>
          if dedup_spec (ids w) [] allLogs = [] then Inr ()
          else sink_outcome env (dedup_spec (ids w) [] allLogs))"
  by (cases env now w rule: runForward_cases) (simp_all add: dedupAndFilter_output)

lemma runForward_forward:
  "forward (snd (runForward env now w)) =
     (case forward_fetch env now w of
        Inl e \<Rightarrow> forward w
      | Inr allLogs \<Rightarrow>
          if dedup_spec (ids w) [] allLogs \<noteq> [] \<and>
             sink_outcome env (dedup_spec (ids w) [] allLogs) = Inr ()
          then Some \<lparr>c_ts = created_at (last (dedup_spec (ids w) [] allLogs)),
                     c_id = id' (last (dedup_spec (ids w) [] allLogs))\<rparr>
          else forward w)"
  by (cases env now w rule: runForward_cases)
    (simp_all add: dedupAndFilter_output sink_error_frame)

lemma runForward_oldest:
  "oldest (snd (runForward env now w)) =
     (case forward_fetch env now w of
        Inl e \<Rightarrow> oldest w
      | Inr allLogs \<Rightarrow>
          if dedup_spec (ids w) [] allLogs \<noteq> [] \<and>
             sink_outcome env (dedup_spec (ids w) [] allLogs) = Inr () \<and> \<not> truthy (oldest w)
          then Some (created_at (hd (dedup_spec (ids w) [] allLogs)))
          else oldest w)"
  by (cases env now w rule: runForward_cases)
    (simp_all add: dedupAndFilter_output sink_error_frame)

lemma runForward_posted:
  "posted (snd (runForward env now w)) =
     (case forward_fetch env now w of
        Inl e \<Rightarrow> posted w
      | Inr allLogs \<Rightarrow>
          if dedup_spec (ids w) [] allLogs \<noteq> [] \<and> (\<exists>t. token_endpoint env = TokenOk t)
          then posted w @ [dedup_spec (ids w) [] allLogs]
          else posted w)"
proof (cases env now w rule: runForward_cases)
  case (commit allLogs)
  then show ?thesis
    using sink_ok_token [of env "dedup_spec (ids w) [] allLogs"]
    by (simp add: dedupAndFilter_output)
qed (simp_all add: dedupAndFilter_output bqInsertAll_posted_token dedupAndFilter_frame)

lemma runForward_ids:
  "ids (snd (runForward env now w)) =
     (case forward_fetch env now w of
        Inl e \<Rightarrow> ids w
      | Inr allLogs \<Rightarrow> ids (snd (dedupAndFilter env allLogs w)))"
proof (cases env now w rule: runForward_cases)
  case (nothing allLogs)
  then show ?thesis using dedupAndFilter_empty_world [of env allLogs w] by simp
qed (simp_all add: bqInsertAll_frame)

lemma runForward_stop:
  "backfill_stop_at (snd (runForward env now w)) = backfill_stop_at w"
  by (cases env now w rule: runForward_cases) (simp_all add: sink_error_frame dedupAndFilter_frame)

lemma runBackfill_outcome:
  "fst (runBackfill env w) =
     (case backfill_fetch env w of
        None \<Rightarrow> Inr ()
      | Some (Inl e) \<Rightarrow> Inl e
      | Some (Inr batch) \<Rightarrow>
          if dedup_spec (ids w) [] (sort_by (compare_logs env) batch) = [] then Inr ()
          else sink_outcome env (dedup_spec (ids w) [] (sort_by (compare_logs env) batch)))"
  by (cases env w rule: runBackfill_cases)
    (auto simp: backfill_fetch_def dedupAndFilter_output truthy_def split: option.splits)

lemma runBackfill_oldest:
  "oldest (snd (runBackfill env w)) =
     (case backfill_fetch env w of
        None \<Rightarrow> oldest w
      | Some (Inl e) \<Rightarrow> oldest w
      | Some (Inr batch) \<Rightarrow>
          if batch = [] then None
          else if dedup_spec (ids w) [] (sort_by (compare_logs env) batch) \<noteq> [] \<and>
                  sink_outcome env (dedup_spec (ids w) [] (sort_by (compare_logs env) batch)) = Inr ()
          then (if created_at (hd (dedup_spec (ids w) [] (sort_by (compare_logs env) batch))) \<le> stopAt_of w
                then None
                else Some (created_at (hd (dedup_spec (ids w) [] (sort_by (compare_logs env) batch)))))
          else oldest w)"
  by (cases env w rule: runBackfill_cases)
    (auto simp: backfill_fetch_def dedupAndFilter_output truthy_def sink_error_frame
      split: option.splits)

lemma runBackfill_posted:
  "posted (snd (runBackfill env w)) =
     (case backfill_fetch env w of
        None \<Rightarrow> posted w
      | Some (Inl e) \<Rightarrow> posted w
      | Some (Inr batch) \<Rightarrow>
          if dedup_spec (ids w) [] (sort_by (compare_logs env) batch) \<noteq> [] \<and>
             (\<exists>t. token_endpoint env = TokenOk t)
          then posted w @ [dedup_spec (ids w) [] (sort_by (compare_logs env) batch)]
          else posted w)"
proof (cases env w rule: runBackfill_cases)
  case (advance t batch)
  then show ?thesis
    using sink_ok_token [of env "dedup_spec (ids w) [] (sort_by (compare_logs env) batch)"]
    by (simp add: backfill_fetch_def dedupAndFilter_output)
qed (auto simp: backfill_fetch_def dedupAndFilter_output truthy_def bqInsertAll_posted_token
      dedupAndFilter_frame split: option.splits)

lemma runBackfill_ids:
  "ids (snd (runBackfill env w)) =
     (case backfill_fetch env w of
        None \<Rightarrow> ids w
      | Some (Inl e) \<Rightarrow> ids w
      | Some (Inr batch) \<Rightarrow> ids (snd (dedupAndFilter env (sort_by (compare_logs env) batch) w)))"
proof (cases env w rule: runBackfill_cases)
  case (nothing t batch)
  then show ?thesis
    using dedupAndFilter_empty_world [of env "sort_by (compare_logs env) batch" w]
    by (simp add: backfill_fetch_def)
next
  case (complete t)
  then show ?thesis
    by (simp add: backfill_fetch_def dedupAndFilter_def)
qed (auto simp: backfill_fetch_def truthy_def bqInsertAll_frame split: option.splits)

section \<open>Which collaborators a cycle depends on\<close>

lemma fetchLogs_loop_env:
  assumes "logs_api env' = logs_api env" and "LOGS_PER_PAGE env' = LOGS_PER_PAGE env"
  shows "fetchLogs_loop env' options p allLogs = fetchLogs_loop env options p allLogs"
  using assms
proof (induction env options p allLogs rule: fetchLogs_loop.induct)
  case (1 env options p allLogs)
  have req: "page_request env' options p = page_request env options p"
    using "1.prems" by (simp add: page_request_def)
  show ?case
  proof (cases "p \<le> maxPages options")
    case False
    then show ?thesis
      by (subst fetchLogs_loop.simps, subst (2) fetchLogs_loop.simps) simp
  next
    case le: True
    show ?thesis
    proof (cases "logs_api env (page_request env options p)")
      case (ApiRejected m)
      with le req "1.prems" show ?thesis
        by (subst fetchLogs_loop.simps, subst (2) fetchLogs_loop.simps) simp
    next
      case (ApiNotOk status errorText)
      with le req "1.prems" show ?thesis
        by (subst fetchLogs_loop.simps, subst (2) fetchLogs_loop.simps) simp
    next
      case (ApiOk json)
      define logs where "logs = (case result json of None \<Rightarrow> [] | Some l \<Rightarrow> l)"
      show ?thesis
      proof (cases "\<not> success json \<or> length logs = 0 \<or> length logs < LOGS_PER_PAGE env")
        case True
        with le req "1.prems" ApiOk show ?thesis
          by (subst fetchLogs_loop.simps, subst (2) fetchLogs_loop.simps)
            (auto simp: Let_def logs_def)
      next
        case False
        then have ih: "fetchLogs_loop env' options (p + 1) (allLogs @ logs) =
            fetchLogs_loop env options (p + 1) (allLogs @ logs)"
          using "1.IH" [OF le ApiOk _ logs_def] "1.prems" by simp
        from False le req "1.prems" ApiOk ih show ?thesis
          by (subst fetchLogs_loop.simps, subst (2) fetchLogs_loop.simps)
            (simp add: Let_def logs_def)
      qed
    qed
  qed
qed

lemma fetchLogs_env:
  assumes "logs_api env' = logs_api env" and "LOGS_PER_PAGE env' = LOGS_PER_PAGE env"
  shows "fetchLogs env' options = fetchLogs env options"
  unfolding fetchLogs_def by (rule fetchLogs_loop_env [OF assms])

lemma forward_fetch_env:
  assumes "logs_api env' = logs_api env" and "LOGS_PER_PAGE env' = LOGS_PER_PAGE env"
    and "FORWARD_MAX_PAGES env' = FORWARD_MAX_PAGES env"
  shows "forward_fetch env' now w = forward_fetch env now w"
proof -
  have eq: "phase2_options env' = phase2_options env"
    using assms(3) by (simp add: phase2_options_def fun_eq_iff)
  show ?thesis
    unfolding forward_fetch_def fetchLogs_env [OF assms(1,2)] eq ..
qed

lemma backfill_fetch_env:
  assumes "logs_api env' = logs_api env" and "LOGS_PER_PAGE env' = LOGS_PER_PAGE env"
    and "BACKFILL_MAX_PAGES env' = BACKFILL_MAX_PAGES env"
  shows "backfill_fetch env' w = backfill_fetch env w"
proof -
  have eq: "backfill_options env' = backfill_options env"
    using assms(3) by (simp add: backfill_options_def fun_eq_iff)
  show ?thesis
    unfolding backfill_fetch_def fetchLogs_env [OF assms(1,2)] eq ..
qed

lemma sink_outcome_env:
  assumes "token_endpoint env' = token_endpoint env"
    and "insertAll_endpoint env' = insertAll_endpoint env"
  shows "sink_outcome env' logs = sink_outcome env logs"
proof (cases "logs = []")
  case True
  then show ?thesis by (simp add: sink_outcome_def bqInsertAll_def)
next
  case False
  show ?thesis unfolding sink_outcome_cases [OF False] assms ..
qed

lemma kvPromises_env:
  assumes "ids_put_rejects env' = ids_put_rejects env"
  shows "kvPromises env' ttl out w = kvPromises env ttl out w"
  using assms by (induction out arbitrary: w) (simp_all add: ids_put_def)

lemma dedupAndFilter_env:
  assumes "DEDUP_TTL_DAYS env' = DEDUP_TTL_DAYS env"
    and "ids_put_rejects env' = ids_put_rejects env"
  shows "dedupAndFilter env' logs w = dedupAndFilter env logs w"
  unfolding dedupAndFilter_def kvPromises_env [OF assms(2)] assms(1) ..

lemma kvPromises_all_reject:
  assumes "\<And>k. ids_put_rejects env k"
  shows "kvPromises env ttl out w = w"
  using assms by (induction out arbitrary: w) (simp_all add: ids_put_def)

lemma runForward_env:
  assumes api: "logs_api env' = logs_api env" "LOGS_PER_PAGE env' = LOGS_PER_PAGE env"
      "FORWARD_MAX_PAGES env' = FORWARD_MAX_PAGES env"
    and dd: "DEDUP_TTL_DAYS env' = DEDUP_TTL_DAYS env" "ids_put_rejects env' = ids_put_rejects env"
    and tok: "token_endpoint env' = token_endpoint env"
    and sink: "\<And>logs. sink_outcome env' logs = sink_outcome env logs"
  shows "runForward env' now w = runForward env now w"
proof (rule prod_eqI)
  show "fst (runForward env' now w) = fst (runForward env now w)"
    unfolding runForward_outcome forward_fetch_env [OF api] sink ..
  show "snd (runForward env' now w) = snd (runForward env now w)"
  proof (rule World.equality)
    show "forward (snd (runForward env' now w)) = forward (snd (runForward env now w))"
      unfolding runForward_forward forward_fetch_env [OF api] sink ..
    show "oldest (snd (runForward env' now w)) = oldest (snd (runForward env now w))"
      unfolding runForward_oldest forward_fetch_env [OF api] sink ..
    show "backfill_stop_at (snd (runForward env' now w)) = backfill_stop_at (snd (runForward env now w))"
      unfolding runForward_stop ..
    show "ids (snd (runForward env' now w)) = ids (snd (runForward env now w))"
      unfolding runForward_ids forward_fetch_env [OF api] dedupAndFilter_env [OF dd] ..
    show "posted (snd (runForward env' now w)) = posted (snd (runForward env now w))"
      unfolding runForward_posted forward_fetch_env [OF api] tok ..
  qed simp
qed

lemma compare_logs_env:
  "localeCompare env' = localeCompare env \<Longrightarrow> compare_logs env' = compare_logs env"
  by (simp add: compare_logs_def fun_eq_iff Let_def)

lemma runBackfill_env:
  assumes api: "logs_api env' = logs_api env" "LOGS_PER_PAGE env' = LOGS_PER_PAGE env"
      "BACKFILL_MAX_PAGES env' = BACKFILL_MAX_PAGES env"
    and dd: "DEDUP_TTL_DAYS env' = DEDUP_TTL_DAYS env" "ids_put_rejects env' = ids_put_rejects env"
    and tok: "token_endpoint env' = token_endpoint env"
    and loc: "localeCompare env' = localeCompare env"
    and sink: "\<And>logs. sink_outcome env' logs = sink_outcome env logs"
  shows "runBackfill env' w = runBackfill env w"
proof (rule prod_eqI)
  show "fst (runBackfill env' w) = fst (runBackfill env w)"
    unfolding runBackfill_outcome backfill_fetch_env [OF api] compare_logs_env [OF loc] sink ..
  show "snd (runBackfill env' w) = snd (runBackfill env w)"
  proof (rule World.equality)
    show "forward (snd (runBackfill env' w)) = forward (snd (runBackfill env w))"
      by (simp add: runBackfill_forward_frame)
    show "oldest (snd (runBackfill env' w)) = oldest (snd (runBackfill env w))"
      unfolding runBackfill_oldest backfill_fetch_env [OF api] compare_logs_env [OF loc] sink ..
    show "backfill_stop_at (snd (runBackfill env' w)) = backfill_stop_at (snd (runBackfill env w))"
      by (simp add: runBackfill_forward_frame)
    show "ids (snd (runBackfill env' w)) = ids (snd (runBackfill env w))"
      unfolding runBackfill_ids backfill_fetch_env [OF api] compare_logs_env [OF loc]
        dedupAndFilter_env [OF dd] ..
    show "posted (snd (runBackfill env' w)) = posted (snd (runBackfill env w))"
      unfolding runBackfill_posted backfill_fetch_env [OF api] compare_logs_env [OF loc] tok ..
  qed simp
qed

lemma sink_outcome_row_errors:
  "sink_outcome (env\<lparr>insertAll_endpoint := (\<lambda>rows. InsertOk (errs rows))\<rparr>) logs =
   sink_outcome (env\<lparr>insertAll_endpoint := (\<lambda>rows. InsertOk None)\<rparr>) logs"
proof (cases "logs = []")
  case True
  then show ?thesis by (simp add: sink_outcome_def bqInsertAll_def)
next
  case False
  then show ?thesis by (simp add: sink_outcome_cases split: token_response.splits)
qed

lemma sink_outcome_not_ok:
  "logs \<noteq> [] \<Longrightarrow>
   sink_outcome (env\<lparr>insertAll_endpoint := (\<lambda>rows. InsertNotOk status errorText)\<rparr>) logs =
     (case token_endpoint env of
        TokenNotOk s e \<Rightarrow> Inl (GoogleTokenError s e)
      | TokenOk t \<Rightarrow> Inl (BigQueryHttpError status errorText))"
  by (simp add: sink_outcome_cases split: token_response.splits)

lemma runForward_sent:
  assumes "posted (snd (runForward env now w)) \<noteq> posted w"
  shows "\<exists>allLogs t. forward_fetch env now w = Inr allLogs \<and>
           dedup_spec (ids w) [] allLogs \<noteq> [] \<and> token_endpoint env = TokenOk t \<and>
           fst (runForward env now w) = sink_outcome env (dedup_spec (ids w) [] allLogs)"
proof (cases "forward_fetch env now w")
  case (Inl e)
  with assms show ?thesis by (simp add: runForward_posted)
next
  case (Inr allLogs)
  with assms have "dedup_spec (ids w) [] allLogs \<noteq> [] \<and> (\<exists>t. token_endpoint env = TokenOk t)"
    by (simp add: runForward_posted split: if_splits)
  with Inr show ?thesis by (simp add: runForward_outcome)
qed

lemma runBackfill_sent:
  assumes "posted (snd (runBackfill env w)) \<noteq> posted w"
  shows "\<exists>batch t. backfill_fetch env w = Some (Inr batch) \<and> batch \<noteq> [] \<and>
           dedup_spec (ids w) [] (sort_by (compare_logs env) batch) \<noteq> [] \<and>
           token_endpoint env = TokenOk t \<and>
           fst (runBackfill env w) =
             sink_outcome env (dedup_spec (ids w) [] (sort_by (compare_logs env) batch))"
proof (cases "backfill_fetch env w")
  case None
  with assms show ?thesis by (simp add: runBackfill_posted)
next
  case (Some r)
  show ?thesis
  proof (cases r)
    case (Inl e)
    with Some assms show ?thesis by (simp add: runBackfill_posted)
  next
    case (Inr batch)
    with Some assms
    have ne: "dedup_spec (ids w) [] (sort_by (compare_logs env) batch) \<noteq> [] \<and>
        (\<exists>t. token_endpoint env = TokenOk t)"
      by (simp add: runBackfill_posted split: if_splits)
    then have "batch \<noteq> []" by auto
    with ne Some Inr show ?thesis by (simp add: runBackfill_outcome)
  qed
qed

lemma runBackfill_sink_failed:
  assumes "backfill_fetch env w = Some (Inr batch)" and "batch \<noteq> []"
    and "sink_outcome env (dedup_spec (ids w) [] (sort_by (compare_logs env) batch)) \<noteq> Inr ()"
  shows "oldest (snd (runBackfill env w)) = oldest w"
  using assms by (simp add: runBackfill_oldest)

section \<open>The batch of a backfill cycle\<close>

lemma dedup_spec_sorted:
  "sorted (map log_key logs) \<Longrightarrow> sorted (map log_key (dedup_spec kv earlier logs))"
proof (induction logs arbitrary: earlier)
  case Nil
  then show ?case by simp
next
  case (Cons x xs)
  have sub: "set (dedup_spec kv (earlier @ [id' x]) xs) \<subseteq> set xs"
    using dedup_spec_accepted [of _ kv "earlier @ [id' x]" xs] by blast
  from Cons.prems have "sorted (map log_key xs)" and
    least: "\<forall>y \<in> set xs. log_key x \<le> log_key y" by auto
  from Cons.IH [OF this(1), of "earlier @ [id' x]"] least sub show ?case by auto
qed

lemma sorted_hd_least:
  "sorted (map log_key xs) \<Longrightarrow> r \<in> set xs \<Longrightarrow> created_at (hd xs) \<le> created_at r"
  by (cases xs) (auto simp: log_key_def less_eq_prod_def)

lemma fetch_backfill_static:
  assumes "logs_api env = static_source src"
    and "fetchLogs env (backfill_options env t) = Inr batch"
  shows "set batch \<subseteq> {r \<in> set src. created_at r < t}"
proof -
  from assms have "batch = take (BACKFILL_MAX_PAGES env * LOGS_PER_PAGE env)
      (rev (sort_key log_key (filter (\<lambda>r. created_at r < t) src)))"
    by (simp add: fetchLogs_static selected_backfill)
  then have "set batch \<subseteq> set (rev (sort_key log_key (filter (\<lambda>r. created_at r < t) src)))"
    using set_take_subset by metis
  then show ?thesis by auto
qed

lemma sample_backfill_fetch_30:
  assumes "logs_api env = static_source sample_src"
    and "LOGS_PER_PAGE env = 50" and "BACKFILL_MAX_PAGES env = 40"
  shows "fetchLogs env (backfill_options env ''30'') = Inr [recC, recB, recA]"
proof -
  have "selected sample_src (backfill_options env ''30'') = [recC, recB, recA]"
    by (simp add: selected_backfill sample_src_def log_key_def)
  then show ?thesis by (simp add: fetchLogs_static [OF assms(1)] assms(2,3))
qed

lemma sample_sort_CBA:
  "sort_by (compare_logs (sample_env src)) [recC, recB, recA] = [recA, recB, recC]"
  by (simp add: compare_logs_def code_unit_compare_def)

lemma sample_dedup_ABC:
  "ids w = Map.empty \<Longrightarrow> fst (dedupAndFilter env [recA, recB, recC] w) = [recA, recB, recC]"
  by (simp add: dedupAndFilter_output marked_def truthy_def)

section \<open>The oldest marker under forward cycles\<close>

lemma runForward_keeps_marker:
  "truthy (oldest w) \<Longrightarrow> oldest (snd (runForward env now w)) = oldest w"
  by (simp add: runForward_oldest split: sum.splits)

lemma forward_cycles_keep_marker:
  "truthy (oldest w) \<Longrightarrow> oldest (forward_cycles cycles w) = oldest w"
proof (induction cycles arbitrary: w)
  case Nil
  then show ?case by simp
next
  case (Cons c cycles)
  obtain env now where c: "c = (env, now)" by (cases c)
  have keep: "oldest (snd (runForward env now w)) = oldest w"
    using Cons.prems by (rule runForward_keeps_marker)
  with Cons.prems have "truthy (oldest (snd (runForward env now w)))" by simp
  from Cons.IH [OF this] keep c show ?case by simp
qed

lemma runForward_marker_written:
  assumes "oldest (snd (runForward env now w)) \<noteq> oldest w"
  shows "\<not> truthy (oldest w) \<and> fst (runForward env now w) = Inr () \<and>
      (\<exists>allLogs. forward_fetch env now w = Inr allLogs \<and>
         dedup_spec (ids w) [] allLogs \<noteq> [] \<and>
         posted (snd (runForward env now w)) = posted w @ [dedup_spec (ids w) [] allLogs] \<and>
         oldest (snd (runForward env now w)) =
           Some (created_at (hd (dedup_spec (ids w) [] allLogs))))"
proof (cases "forward_fetch env now w")
  case (Inl e)
  with assms show ?thesis by (simp add: runForward_oldest)
next
  case (Inr allLogs)
  with assms have c: "dedup_spec (ids w) [] allLogs \<noteq> []"
      "sink_outcome env (dedup_spec (ids w) [] allLogs) = Inr ()" "\<not> truthy (oldest w)"
    by (simp_all add: runForward_oldest split: if_splits)
  from sink_ok_token [OF c(2,1)] obtain t where "token_endpoint env = TokenOk t" ..
  with Inr c show ?thesis
    by (simp add: runForward_oldest runForward_outcome runForward_posted)
qed

lemma empty_world_simps [simp]:
  "forward empty_world = None" "oldest empty_world = None" "backfill_stop_at empty_world = None"
  "ids empty_world = Map.empty" "posted empty_world = []"
  by (simp_all add: empty_world_def)

lemma marked_empty [simp]: "marked Map.empty i = False"
  by (simp add: marked_def truthy_def)

lemma truthy_simps [simp]:
  "truthy None = False" "truthy (Some s) = (s \<noteq> [])"
  by (simp_all add: truthy_def)

lemma sample_first_forward_fetch:
  assumes "logs_api env = static_source sample_src"
    and "LOGS_PER_PAGE env = 50" and "FORWARD_MAX_PAGES env = 20"
  shows "forward_fetch env ''00'' empty_world = Inr [recA, recB, recC]"
proof -
  have pos: "lastTs_of ''00'' empty_world = ''00''" "lastId_of empty_world = []"
    by (simp_all add: lastTs_of_def lastId_of_def empty_world_def)
  have "selected sample_src (phase1_options ''00'' []) = []"
    by (simp add: selected_phase1 sample_src_def)
  then have p1: "fetchLogs env (phase1_options ''00'' []) = Inr []"
    by (simp add: fetchLogs_static [OF assms(1)] assms(2))
  have "selected sample_src (phase2_options env ''00'') = [recA, recB, recC]"
    by (simp add: selected_phase2 sample_src_def log_key_def)
  then have p2: "fetchLogs env (phase2_options env ''00'') = Inr [recA, recB, recC]"
    by (simp add: fetchLogs_static [OF assms(1)] assms(2,3))
  show ?thesis by (simp add: forward_fetch_def pos p1 p2)
qed

lemma sample_first_forward:
  "forward (snd (runForward (sample_env sample_src) ''00'' empty_world)) =
     Some \<lparr>c_ts = ''20'', c_id = ''3''\<rparr>"
  "oldest (snd (runForward (sample_env sample_src) ''00'' empty_world)) = Some ''10''"
  "marked (ids (snd (runForward (sample_env sample_src) ''00'' empty_world))) ''4'' = False"
proof -
  show "forward (snd (runForward (sample_env sample_src) ''00'' empty_world)) =
     Some \<lparr>c_ts = ''20'', c_id = ''3''\<rparr>"
    by (simp add: runForward_forward sample_first_forward_fetch sample_sink_ok)
  show "oldest (snd (runForward (sample_env sample_src) ''00'' empty_world)) = Some ''10''"
    by (simp add: runForward_oldest sample_first_forward_fetch sample_sink_ok)
  show "marked (ids (snd (runForward (sample_env sample_src) ''00'' empty_world))) ''4'' = False"
    by (simp add: marked_def runForward_ids sample_first_forward_fetch dedupAndFilter_ids)
      (simp add: kvKey_def)
qed

lemma sample_backfill_fetch_10:
  assumes "logs_api env = static_source sample_src"
  shows "fetchLogs env (backfill_options env ''10'') = Inr []"
proof -
  have "selected sample_src (backfill_options env ''10'') = []"
    by (simp add: selected_backfill sample_src_def)
  then show ?thesis by (simp add: fetchLogs_static [OF assms])
qed

lemma sample_backfill_after_forward:
  "oldest (snd (runBackfill (sample_env sample_src)
      (snd (runForward (sample_env sample_src) ''00'' empty_world)))) = None"
  "forward (snd (runBackfill (sample_env sample_src)
      (snd (runForward (sample_env sample_src) ''00'' empty_world)))) =
     Some \<lparr>c_ts = ''20'', c_id = ''3''\<rparr>"
  "marked (ids (snd (runBackfill (sample_env sample_src)
      (snd (runForward (sample_env sample_src) ''00'' empty_world))))) ''4'' = False"
proof -
  let ?w1 = "snd (runForward (sample_env sample_src) ''00'' empty_world)"
  have bf: "backfill_fetch (sample_env sample_src) ?w1 = Some (Inr [])"
    by (simp add: backfill_fetch_def sample_first_forward(2) sample_backfill_fetch_10)
  show "oldest (snd (runBackfill (sample_env sample_src) ?w1)) = None"
    by (simp add: runBackfill_oldest bf)
  show "forward (snd (runBackfill (sample_env sample_src) ?w1)) =
     Some \<lparr>c_ts = ''20'', c_id = ''3''\<rparr>"
    by (simp add: runBackfill_forward_frame sample_first_forward(1))
  have "ids (snd (runBackfill (sample_env sample_src) ?w1)) = ids ?w1"
    by (simp add: runBackfill_ids bf dedupAndFilter_def)
  then show "marked (ids (snd (runBackfill (sample_env sample_src) ?w1))) ''4'' = False"
    by (simp add: sample_first_forward(3))
qed

lemma grown_forward_fetch:
  assumes "logs_api env = static_source grown_src"
    and "LOGS_PER_PAGE env = 50" and "FORWARD_MAX_PAGES env = 20"
    and "forward w = Some \<lparr>c_ts = ''20'', c_id = ''3''\<rparr>"
  shows "forward_fetch env now w = Inr [recD]"
proof -
  have pos: "lastTs_of now w = ''20''" "lastId_of w = ''3''"
    using assms(4) by (simp_all add: lastTs_of_def lastId_of_def)
  have "selected grown_src (phase1_options ''20'' ''3'') = []"
    by (simp add: selected_phase1 grown_src_def)
  then have p1: "fetchLogs env (phase1_options ''20'' ''3'') = Inr []"
    by (simp add: fetchLogs_static [OF assms(1)] assms(2))
  have "selected grown_src (phase2_options env ''20'') = [recD]"
    by (simp add: selected_phase2 grown_src_def)
  then have p2: "fetchLogs env (phase2_options env ''20'') = Inr [recD]"
    by (simp add: fetchLogs_static [OF assms(1)] assms(2,3))
  show ?thesis by (simp add: forward_fetch_def pos p1 p2)
qed

section \<open>Retrying a forward cycle\<close>

lemma dedup_spec_nothing_new:
  "\<forall>r \<in> set logs. id' r = [] \<or> marked kv (id' r) \<Longrightarrow> dedup_spec kv earlier logs = []"
  by (induction logs arbitrary: earlier) auto

lemma marked_after_dedup:
  assumes "marked (ids w) i \<or>
     (i \<in> id' ` set (dedup_spec (ids w) [] logs) \<and> \<not> ids_put_rejects env (kvKey i))"
  shows "marked (ids (snd (dedupAndFilter env logs w))) i"
  using assms by (auto simp: marked_def dedupAndFilter_ids truthy_def)

lemma forward_fetch_world:
  assumes "forward w' = forward w"
  shows "forward_fetch env now w' = forward_fetch env now w"
proof -
  have eq: "lastTs_of now w' = lastTs_of now w" "lastId_of w' = lastId_of w"
    using assms by (simp_all add: lastTs_of_def lastId_of_def)
  show ?thesis unfolding forward_fetch_def eq ..
qed

lemma runForward_clock:
  "forward w = Some c \<Longrightarrow> runForward env now' w = runForward env now w"
  by (simp add: runForward_def)

lemma forward_cycles_fetch_aborts:
  assumes "\<forall>(env', now') \<in> set attempts. \<exists>e. forward_fetch env' now' w = Inl e"
  shows "forward_cycles attempts w = w"
  using assms
proof (induction attempts)
  case Nil
  then show ?case by simp
next
  case (Cons a attempts)
  obtain env' now' where a: "a = (env', now')" by (cases a)
  with Cons.prems obtain e where "forward_fetch env' now' w = Inl e" by auto
  then have "runForward env' now' w = (Inl e, w)" by (rule runForward_fetch_error)
  with Cons a show ?case by simp
qed

lemma runForward_after_sink_abort:
  assumes fetched: "forward_fetch env now w = Inr allLogs"
    and batch: "dedup_spec (ids w) [] allLogs \<noteq> []"
    and abort: "sink_outcome env (dedup_spec (ids w) [] allLogs) = Inl e"
    and marks: "\<forall>r \<in> set (dedup_spec (ids w) [] allLogs). \<not> ids_put_rejects env (kvKey (id' r))"
    and again: "forward_fetch env' now' w = Inr allLogs"
  shows "fst (runForward env now w) = Inl e \<and>
         forward (snd (runForward env now w)) = forward w \<and>
         forward_fetch env' now' (snd (runForward env now w)) = Inr allLogs \<and>
         fst (dedupAndFilter env' allLogs (snd (runForward env now w))) = [] \<and>
         runForward env' now' (snd (runForward env now w)) = (Inr (), snd (runForward env now w))"
proof -
  let ?w1 = "snd (runForward env now w)"
  have out: "fst (runForward env now w) = Inl e"
    using fetched batch abort by (simp add: runForward_outcome)
  have cur: "forward ?w1 = forward w"
    using out runForward_error_frame by blast
  have ff: "forward_fetch env' now' ?w1 = Inr allLogs"
    using forward_fetch_world [OF cur] again by simp
  have ids1: "ids ?w1 = ids (snd (dedupAndFilter env allLogs w))"
    using fetched by (simp add: runForward_ids)
  have "\<forall>r \<in> set allLogs. id' r = [] \<or> marked (ids ?w1) (id' r)"
  proof
    fix r
    assume r: "r \<in> set allLogs"
    show "id' r = [] \<or> marked (ids ?w1) (id' r)"
    proof (cases "id' r = [] \<or> marked (ids w) (id' r)")
      case True
      then show ?thesis unfolding ids1 using marked_after_dedup [of w "id' r" allLogs env] by blast
    next
      case False
      with r have "id' r \<in> id' ` set (dedup_spec (ids w) [] allLogs)"
        using dedup_spec_complete [of r allLogs "[]" "ids w"] by simp
      moreover from this marks have "\<not> ids_put_rejects env (kvKey (id' r))" by auto
      ultimately show ?thesis
        unfolding ids1 using marked_after_dedup [of w "id' r" allLogs env] by blast
    qed
  qed
  then have empty: "dedup_spec (ids ?w1) [] allLogs = []"
    by (rule dedup_spec_nothing_new)
  then have de: "fst (dedupAndFilter env' allLogs ?w1) = []"
    by (simp add: dedupAndFilter_output)
  have "runForward env' now' ?w1 = (Inr (), ?w1)"
    using ff de by (rule runForward_nothing)
  with out cur ff de show ?thesis by simp
qed

lemma fetchLogs_not_ok:
  assumes "1 \<le> maxPages options"
    and "logs_api env (page_request env options 1) = ApiNotOk status errorText"
  shows "fetchLogs env options = Inl (CFLogsHttpError status errorText)"
  unfolding fetchLogs_def using assms by (subst fetchLogs_loop.simps) simp

lemma api_down_forward_fetch:
  "forward_fetch (api_down_env src) now w = Inl (CFLogsHttpError 500 ''error'')"
proof -
  have "fetchLogs (api_down_env src) (phase1_options (lastTs_of now w) (lastId_of w)) =
      Inl (CFLogsHttpError 500 ''error'')"
    by (rule fetchLogs_not_ok) (simp_all add: api_down_env_def)
  then show ?thesis by (simp add: forward_fetch_def)
qed

lemma sample_sink_abort:
  "fst (runForward (sink_down_env sample_src) ''09'' world_cursor_A) =
     Inl (BigQueryHttpError 503 ''unavailable'') \<and>
   forward (snd (runForward (sink_down_env sample_src) ''09'' world_cursor_A)) =
     forward world_cursor_A \<and>
   forward_fetch (sample_env sample_src) ''09''
     (snd (runForward (sink_down_env sample_src) ''09'' world_cursor_A)) = Inr [recB, recC] \<and>
   fst (dedupAndFilter (sample_env sample_src) [recB, recC]
     (snd (runForward (sink_down_env sample_src) ''09'' world_cursor_A))) = [] \<and>
   runForward (sample_env sample_src) ''09''
     (snd (runForward (sink_down_env sample_src) ''09'' world_cursor_A)) =
     (Inr (), snd (runForward (sink_down_env sample_src) ''09'' world_cursor_A))"
proof (rule runForward_after_sink_abort)
  have spec: "dedup_spec (ids world_cursor_A) [] [recB, recC] = [recB, recC]"
    using sample_forward_dedup [of "sample_env sample_src"] by (simp only: dedupAndFilter_output)
  show "forward_fetch (sink_down_env sample_src) ''09'' world_cursor_A = Inr [recB, recC]"
    by (rule sample_forward_fetch) simp_all
  show "dedup_spec (ids world_cursor_A) [] [recB, recC] \<noteq> []"
    unfolding spec by simp
  show "sink_outcome (sink_down_env sample_src) (dedup_spec (ids world_cursor_A) [] [recB, recC]) =
      Inl (BigQueryHttpError 503 ''unavailable'')"
    unfolding spec by (rule sample_sink_down) simp
  show "\<forall>r \<in> set (dedup_spec (ids world_cursor_A) [] [recB, recC]).
      \<not> ids_put_rejects (sink_down_env sample_src) (kvKey (id' r))"
    by simp
  show "forward_fetch (sample_env sample_src) ''09'' world_cursor_A = Inr [recB, recC]"
    by (rule sample_forward_fetch) simp_all
qed

section \<open>The two fetches of a forward cycle\<close>






section \<open>Progress of backfill\<close>

lemma kvKey_inj: "kvKey i = kvKey j \<longleftrightarrow> i = j"
  by (simp add: kvKey_def)

lemma dedup_spec_head_accepted:
  assumes "logs \<noteq> []" and "id' (hd logs) \<noteq> []" and "\<not> marked kv (id' (hd logs))"
  shows "dedup_spec kv [] logs \<noteq> [] \<and> hd (dedup_spec kv [] logs) = hd logs"
  using assms by (cases logs) simp_all

lemma length_filter_stronger:
  assumes "\<And>x. P x \<Longrightarrow> Q x" and "x \<in> set xs" and "Q x" and "\<not> P x"
  shows "length (filter P xs) < length (filter Q xs)"
proof -
  have "filter P (filter Q xs) = filter P xs"
    using assms(1) by (auto intro: filter_cong)
  moreover have "length (filter P (filter Q xs)) < length (filter Q xs)"
    using assms(2-4) by (intro length_filter_less [of x]) simp_all
  ultimately show ?thesis by simp
qed

lemma backfill_cycles_add:
  "backfill_cycles env (n + m) w = backfill_cycles env m (backfill_cycles env n w)"
  by (induction n arbitrary: w) simp_all

lemma backfill_cycles_no_marker:
  "oldest w = None \<Longrightarrow> backfill_cycles env m w = w"
  by (induction m) (simp_all add: runBackfill_no_marker truthy_def)

lemma backfill_cycles_fixed:
  "runBackfill env w = (r, w) \<Longrightarrow> backfill_cycles env n w = w"
  by (induction n) simp_all

text \<open>
  One cycle over a static source, from a marker with no marked record below it, under a
  collation that orders the source's strings as the string order does: the cycle deletes
  the marker, because its fetch is empty or its batch reaches the boundary, or it moves the
  marker down past at least one record and marks no record below the new marker.
\<close>

lemma backfill_step:
  assumes api: "logs_api env = static_source src"
    and coll: "collates_as_strings env (created_at ` set src \<union> id' ` set src)"
    and dist: "distinct (map id' src)"
    and named: "\<forall>r \<in> set src. id' r \<noteq> []"
    and sink: "\<forall>logs. logs \<noteq> [] \<longrightarrow> sink_outcome env logs = Inr ()"
    and marker: "oldest w = Some t" "t \<noteq> []"
    and fresh: "\<forall>r \<in> set src. created_at r < t \<longrightarrow> \<not> marked (ids w) (id' r)"
  shows "(oldest (snd (runBackfill env w)) = None \<and>
          (backfill_fetch env w = Some (Inr []) \<or> reaches_boundary env w)) \<or>
     (\<exists>t'. oldest (snd (runBackfill env w)) = Some t' \<and> t' \<noteq> [] \<and>
        length (filter (\<lambda>r. created_at r < t') src) < length (filter (\<lambda>r. created_at r < t) src) \<and>
        (\<forall>r \<in> set src. created_at r < t' \<longrightarrow>
           \<not> marked (ids (snd (runBackfill env w))) (id' r)))"
proof -
  obtain batch where fetched: "fetchLogs env (backfill_options env t) = Inr batch"
    using fetchLogs_static [OF api] by blast
  then have bf: "backfill_fetch env w = Some (Inr batch)"
    using marker by (simp add: backfill_fetch_def)
  show ?thesis
  proof (cases "batch = []")
    case True
    with bf show ?thesis by (simp add: runBackfill_oldest)
  next
    case False
    let ?sorted = "sort_by (compare_logs env) batch"
    let ?toSend = "dedup_spec (ids w) [] ?sorted"
    have inb: "set batch \<subseteq> {r \<in> set src. created_at r < t}"
      using api fetched by (rule fetch_backfill_static)
    then have "created_at ` set batch \<union> id' ` set batch \<subseteq> created_at ` set src \<union> id' ` set src"
      by auto
    with coll have "collates_as_strings env (created_at ` set batch \<union> id' ` set batch)"
      by (rule collates_subset)
    then have asc: "?sorted = sort_key log_key batch"
      by (rule sort_logs_as_strings)
    have sne: "?sorted \<noteq> []" using False by simp
    then have "hd ?sorted \<in> set ?sorted" by (rule hd_in_set)
    then have hb: "hd ?sorted \<in> set batch" by simp
    with inb named fresh have "id' (hd ?sorted) \<noteq> []" "\<not> marked (ids w) (id' (hd ?sorted))"
      by auto
    with sne have ne: "?toSend \<noteq> []" and hd_eq: "hd ?toSend = hd ?sorted"
      using dedup_spec_head_accepted by blast+
    have ok: "sink_outcome env ?toSend = Inr ()" using sink ne by blast
    define t' where "t' = created_at (hd ?toSend)"
    have old: "oldest (snd (runBackfill env w)) = (if t' \<le> stopAt_of w then None else Some t')"
      using bf False ne ok by (simp add: runBackfill_oldest t'_def)
    show ?thesis
    proof (cases "t' \<le> stopAt_of w")
      case True
      then have "reaches_boundary env w"
        using bf False ne ok by (simp add: reaches_boundary_def dedupAndFilter_output t'_def)
      with old True show ?thesis by simp
    next
      case above: False
      then have t'ne: "t' \<noteq> []" by auto
      have hsrc: "hd ?toSend \<in> set src" "t' < t"
        using hb inb hd_eq by (auto simp: t'_def)
      have less: "length (filter (\<lambda>r. created_at r < t') src) <
          length (filter (\<lambda>r. created_at r < t) src)"
      proof (rule length_filter_stronger [of _ _ "hd ?toSend"])
        fix x :: AIGLog
        assume "created_at x < t'"
        with hsrc(2) show "created_at x < t" by simp
      next
        show "hd ?toSend \<in> set src" by (rule hsrc(1))
        show "created_at (hd ?toSend) < t" using hsrc(2) by (simp add: t'_def)
        show "\<not> created_at (hd ?toSend) < t'" by (simp add: t'_def)
      qed
      have srt: "sorted (map log_key ?toSend)"
        unfolding asc by (rule dedup_spec_sorted) simp
      have sub: "set ?toSend \<subseteq> set src"
        using dedup_spec_accepted [of _ "ids w" "[]" ?sorted] inb by auto
      have keep: "\<not> marked (ids (snd (runBackfill env w))) (id' r)"
        if r: "r \<in> set src" "created_at r < t'" for r
      proof -
        have "id' r \<notin> id' ` set ?toSend"
        proof
          assume "id' r \<in> id' ` set ?toSend"
          then obtain x where x: "x \<in> set ?toSend" "id' x = id' r" by auto
          with sub r(1) dist have "x = r"
            by (meson distinct_map inj_onD subsetD)
          with x(1) sorted_hd_least [OF srt] have "t' \<le> created_at r"
            by (simp add: t'_def)
          with r(2) show False by simp
        qed
        moreover have "\<not> marked (ids w) (id' r)"
          using fresh r hsrc(2) by auto
        moreover have "ids (snd (runBackfill env w)) =
            ids (snd (dedupAndFilter env ?sorted w))"
          using bf by (simp add: runBackfill_ids)
        ultimately show ?thesis
          by (auto simp: marked_def dedupAndFilter_ids kvKey_inj)
      qed
      from old above t'ne less keep show ?thesis by auto
    qed
  qed
qed

lemma backfill_reaches_none:
  assumes api: "logs_api env = static_source src"
    and coll: "collates_as_strings env (created_at ` set src \<union> id' ` set src)"
    and dist: "distinct (map id' src)"
    and named: "\<forall>r \<in> set src. id' r \<noteq> []"
    and sink: "\<forall>logs. logs \<noteq> [] \<longrightarrow> sink_outcome env logs = Inr ()"
  shows "oldest w = Some t \<Longrightarrow> t \<noteq> [] \<Longrightarrow>
     \<forall>r \<in> set src. created_at r < t \<longrightarrow> \<not> marked (ids w) (id' r) \<Longrightarrow>
     length (filter (\<lambda>r. created_at r < t) src) = k \<Longrightarrow>
     \<exists>n \<le> k. oldest (backfill_cycles env (Suc n) w) = None \<and>
        (backfill_fetch env (backfill_cycles env n w) = Some (Inr []) \<or>
         reaches_boundary env (backfill_cycles env n w))"
proof (induction k arbitrary: w t rule: less_induct)
  case (less k)
  define w' where "w' = snd (runBackfill env w)"
  have step: "(oldest w' = None \<and>
          (backfill_fetch env w = Some (Inr []) \<or> reaches_boundary env w)) \<or>
     (\<exists>t'. oldest w' = Some t' \<and> t' \<noteq> [] \<and>
        length (filter (\<lambda>r. created_at r < t') src) < length (filter (\<lambda>r. created_at r < t) src) \<and>
        (\<forall>r \<in> set src. created_at r < t' \<longrightarrow> \<not> marked (ids w') (id' r)))"
    unfolding w'_def by (rule backfill_step [OF api coll dist named sink less.prems(1,2,3)])
  have unroll: "backfill_cycles env (Suc n) w = backfill_cycles env n w'" for n
    by (simp add: w'_def)
  from step show ?case
  proof
    assume a: "oldest w' = None \<and>
          (backfill_fetch env w = Some (Inr []) \<or> reaches_boundary env w)"
    then have "oldest (backfill_cycles env (Suc 0) w) = None"
      unfolding unroll by simp
    moreover from a have "backfill_fetch env (backfill_cycles env 0 w) = Some (Inr []) \<or>
         reaches_boundary env (backfill_cycles env 0 w)" by simp
    ultimately show ?thesis by (rule_tac x = 0 in exI) simp
  next
    assume "\<exists>t'. oldest w' = Some t' \<and> t' \<noteq> [] \<and>
        length (filter (\<lambda>r. created_at r < t') src) < length (filter (\<lambda>r. created_at r < t) src) \<and>
        (\<forall>r \<in> set src. created_at r < t' \<longrightarrow> \<not> marked (ids w') (id' r))"
    then obtain t' where m1: "oldest w' = Some t'" and m2: "t' \<noteq> []"
      and m3: "length (filter (\<lambda>r. created_at r < t') src) <
                length (filter (\<lambda>r. created_at r < t) src)"
      and m4: "\<forall>r \<in> set src. created_at r < t' \<longrightarrow> \<not> marked (ids w') (id' r)"
      by (elim exE conjE)
    define k' where "k' = length (filter (\<lambda>r. created_at r < t') src)"
    have lt: "k' < k" using m3 less.prems(4) by (simp add: k'_def)
    have "\<exists>n \<le> k'. oldest (backfill_cycles env (Suc n) w') = None \<and>
        (backfill_fetch env (backfill_cycles env n w') = Some (Inr []) \<or>
         reaches_boundary env (backfill_cycles env n w'))"
      using lt m1 m2 m4 k'_def [symmetric] by (rule less.IH)
    then obtain n where n1: "n \<le> k'"
      and n2: "oldest (backfill_cycles env (Suc n) w') = None"
      and n3: "backfill_fetch env (backfill_cycles env n w') = Some (Inr []) \<or>
         reaches_boundary env (backfill_cycles env n w')"
      by (elim exE conjE)
    have "oldest (backfill_cycles env (Suc (Suc n)) w) = None"
      unfolding unroll by (rule n2)
    moreover have "backfill_fetch env (backfill_cycles env (Suc n) w) = Some (Inr []) \<or>
         reaches_boundary env (backfill_cycles env (Suc n) w)"
      unfolding unroll by (rule n3)
    moreover have "Suc n \<le> k" using n1 lt by simp
    ultimately show ?thesis by (rule_tac x = "Suc n" in exI) simp
  qed
qed

lemma sample_backfill_boundary:
  "backfill_fetch (sample_env sample_src) world_oldest_30_stop_15 = Some (Inr [recC, recB, recA])"
  "oldest (snd (runBackfill (sample_env sample_src) world_oldest_30_stop_15)) = None"
proof -
  have old: "oldest world_oldest_30_stop_15 = Some ''30''" by (simp add: world_oldest_30_stop_15_def)
  have f: "fetchLogs (sample_env sample_src) (backfill_options (sample_env sample_src) ''30'') =
      Inr [recC, recB, recA]"
    by (rule sample_backfill_fetch_30) simp_all
  show bf: "backfill_fetch (sample_env sample_src) world_oldest_30_stop_15 = Some (Inr [recC, recB, recA])"
    by (simp add: backfill_fetch_def old f)
  have stop: "stopAt_of world_oldest_30_stop_15 = ''15''"
    by (simp add: stopAt_of_def world_oldest_30_stop_15_def)
  have dd: "fst (dedupAndFilter (sample_env sample_src) (sort_by (compare_logs (sample_env sample_src)) [recC, recB, recA])
        world_oldest_30_stop_15) = [recA, recB, recC]"
    unfolding sample_sort_CBA by (rule sample_dedup_ABC) (simp add: world_oldest_30_stop_15_def)
  have ok: "sink_outcome (sample_env sample_src) [recA, recB, recC] = Inr ()"
    by (rule sample_sink_ok) simp
  have "runBackfill (sample_env sample_src) world_oldest_30_stop_15 =
       (Inr (), (snd (dedupAndFilter (sample_env sample_src) (sort_by (compare_logs (sample_env sample_src)) [recC, recB, recA])
                   world_oldest_30_stop_15))
          \<lparr>posted := posted world_oldest_30_stop_15 @ [[recA, recB, recC]],
           oldest := (if created_at (hd [recA, recB, recC]) \<le> stopAt_of world_oldest_30_stop_15 then None
                      else Some (created_at (hd [recA, recB, recC])))\<rparr>)"
    by (rule runBackfill_advance [OF old _ f _ dd _ ok]) simp_all
  then show "oldest (snd (runBackfill (sample_env sample_src) world_oldest_30_stop_15)) = None"
    unfolding stop by simp
qed

section \<open>Evaluating the sample with timestamps of mixed case\<close>

lemma case_last_env_simps [simp]:
  "LOGS_PER_PAGE (case_last_env src) = 50"
  "BACKFILL_MAX_PAGES (case_last_env src) = 40"
  "DEDUP_TTL_DAYS (case_last_env src) = 45"
  "logs_api (case_last_env src) = static_source src"
  "token_endpoint (case_last_env src) = TokenOk ''token''"
  "insertAll_endpoint (case_last_env src) = (\<lambda>rows. InsertOk None)"
  "ids_put_rejects (case_last_env src) = (\<lambda>k. False)"
  "localeCompare (case_last_env src) = case_last_compare"
  by (simp_all add: case_last_env_def sample_env_def)

lemma mixed_records [simp]:
  "id' recX = ''1''" "created_at recX = ''2024-01-01t00:00:00z''"
  "id' recY = ''2''" "created_at recY = ''2024-01-01T00:00:00Z''"
  by (simp_all add: recX_def recY_def)

lemma mixed_collation:
  "case_last_compare ''2024-01-01t00:00:00z'' ''2024-01-01T00:00:00Z'' = - 1"
  by (simp add: case_last_compare_def collation_key_def lower_def)

lemma mixed_sort:
  "sort_by (compare_logs (case_last_env src)) [recX, recY] = [recX, recY]"
  by (simp add: compare_logs_def mixed_collation)

lemma mixed_backfill_fetch_2025:
  assumes "logs_api env = static_source mixed_src"
    and "LOGS_PER_PAGE env = 50" and "BACKFILL_MAX_PAGES env = 40"
  shows "fetchLogs env (backfill_options env ''2025'') = Inr [recX, recY]"
proof -
  have "selected mixed_src (backfill_options env ''2025'') = [recX, recY]"
    by (simp add: selected_backfill mixed_src_def log_key_def)
  then show ?thesis by (simp add: fetchLogs_static [OF assms(1)] assms(2,3))
qed

lemma mixed_backfill_fetch_lower:
  assumes "logs_api env = static_source mixed_src"
    and "LOGS_PER_PAGE env = 50" and "BACKFILL_MAX_PAGES env = 40"
  shows "fetchLogs env (backfill_options env ''2024-01-01t00:00:00z'') = Inr [recY]"
proof -
  have "selected mixed_src (backfill_options env ''2024-01-01t00:00:00z'') = [recY]"
    by (simp add: selected_backfill mixed_src_def log_key_def)
  then show ?thesis by (simp add: fetchLogs_static [OF assms(1)] assms(2,3))
qed

lemma world_oldest_2025_simps [simp]:
  "oldest world_oldest_2025 = Some ''2025''"
  "ids world_oldest_2025 = Map.empty"
  "posted world_oldest_2025 = []"
  "stopAt_of world_oldest_2025 = ''2024-01-01T00:00:00Z''"
  by (simp_all add: world_oldest_2025_def stopAt_of_def)

lemma mixed_backfill_fetch:
  "backfill_fetch (case_last_env mixed_src) world_oldest_2025 = Some (Inr [recX, recY])"
  by (simp add: backfill_fetch_def mixed_backfill_fetch_2025)

lemma mixed_dedup:
  "dedup_spec (ids world_oldest_2025) [] [recX, recY] = [recX, recY]"
  by simp

lemma mixed_first_backfill:
  "fst (runBackfill (case_last_env mixed_src) world_oldest_2025) = Inr ()"
  "posted (snd (runBackfill (case_last_env mixed_src) world_oldest_2025)) = [[recX, recY]]"
  "oldest (snd (runBackfill (case_last_env mixed_src) world_oldest_2025)) =
     Some ''2024-01-01t00:00:00z''"
  "marked (ids (snd (runBackfill (case_last_env mixed_src) world_oldest_2025))) ''2''"
proof -
  have ok: "sink_outcome (case_last_env mixed_src) [recX, recY] = Inr ()"
    by (simp add: sink_outcome_cases)
  show "fst (runBackfill (case_last_env mixed_src) world_oldest_2025) = Inr ()"
    by (simp add: runBackfill_outcome mixed_backfill_fetch mixed_sort mixed_dedup ok
        del: sort_by_simps)
  show "posted (snd (runBackfill (case_last_env mixed_src) world_oldest_2025)) = [[recX, recY]]"
    by (simp add: runBackfill_posted mixed_backfill_fetch mixed_sort mixed_dedup
        del: sort_by_simps)
  show "oldest (snd (runBackfill (case_last_env mixed_src) world_oldest_2025)) =
     Some ''2024-01-01t00:00:00z''"
    by (simp add: runBackfill_oldest mixed_backfill_fetch mixed_sort mixed_dedup ok
        del: sort_by_simps)
  show "marked (ids (snd (runBackfill (case_last_env mixed_src) world_oldest_2025))) ''2''"
    by (simp add: runBackfill_ids mixed_backfill_fetch mixed_sort marked_def dedupAndFilter_ids
        mixed_dedup del: sort_by_simps)
qed

lemma mixed_second_backfill:
  "backfill_fetch (case_last_env mixed_src)
     (snd (runBackfill (case_last_env mixed_src) world_oldest_2025)) = Some (Inr [recY])"
  "runBackfill (case_last_env mixed_src)
     (snd (runBackfill (case_last_env mixed_src) world_oldest_2025)) =
     (Inr (), snd (runBackfill (case_last_env mixed_src) world_oldest_2025))"
proof -
  let ?w1 = "snd (runBackfill (case_last_env mixed_src) world_oldest_2025)"
  have f: "fetchLogs (case_last_env mixed_src)
      (backfill_options (case_last_env mixed_src) ''2024-01-01t00:00:00z'') = Inr [recY]"
    by (rule mixed_backfill_fetch_lower) simp_all
  show "backfill_fetch (case_last_env mixed_src) ?w1 = Some (Inr [recY])"
    by (simp add: backfill_fetch_def mixed_first_backfill(3) f)
  have dd: "fst (dedupAndFilter (case_last_env mixed_src)
      (sort_by (compare_logs (case_last_env mixed_src)) [recY]) ?w1) = []"
    using mixed_first_backfill(4) by (simp add: dedupAndFilter_output)
  show "runBackfill (case_last_env mixed_src) ?w1 = (Inr (), ?w1)"
    by (rule runBackfill_nothing [OF mixed_first_backfill(3) _ f _ dd]) simp_all
qed

lemma mixed_stall:
  "backfill_cycles (case_last_env mixed_src) (Suc n) world_oldest_2025 =
     snd (runBackfill (case_last_env mixed_src) world_oldest_2025)"
  using backfill_cycles_fixed [OF mixed_second_backfill(2)] by simp

section \<open>The claims\<close>

text \<open>
  C6. For every batch and every store, the output of the dedup filter is the batch filtered in
  order: a record is dropped when its id is empty, when its id occurred earlier in the batch,
  or when the store holds a membership marker for its id (so every id that the filter
  marked before, and whose marker is still in the store, is excluded); nothing else is
  dropped. The accepted records keep their relative order and have pairwise different ids. The markers
  are written after the batch is decided: the output is computed against the store as it
  was at the call, and the store afterwards differs from it only by a marker, with the
  configured TTL, for each accepted record whose write did not reject.
\<close>

theorem dedupAndFilter_filters_in_order:
  "fst (dedupAndFilter env logs w) = dedup_spec (ids w) [] logs \<and>
   subseq (fst (dedupAndFilter env logs w)) logs \<and>
   distinct (map id' (fst (dedupAndFilter env logs w))) \<and>
   (\<forall>r \<in> set (fst (dedupAndFilter env logs w)). id' r \<noteq> [] \<and> \<not> marked (ids w) (id' r)) \<and>
   (\<forall>r \<in> set logs. \<forall>ttl. ids w (kvKey (id' r)) = Some (''1'', ttl) \<longrightarrow>
      id' r \<notin> id' ` set (fst (dedupAndFilter env logs w))) \<and>
   (\<forall>r \<in> set logs. id' r \<noteq> [] \<and> \<not> marked (ids w) (id' r) \<longrightarrow>
      id' r \<in> id' ` set (fst (dedupAndFilter env logs w))) \<and>
   (\<forall>k. ids (snd (dedupAndFilter env logs w)) k =
      (if k \<in> kvKey ` id' ` set (fst (dedupAndFilter env logs w)) \<and> \<not> ids_put_rejects env k
       then Some (''1'', DEDUP_TTL_DAYS env * 24 * 60 * 60)
       else ids w k))"
proof -
  have out: "fst (dedupAndFilter env logs w) = dedup_spec (ids w) [] logs"
    by (rule dedupAndFilter_output)
  have "subseq (dedup_spec (ids w) [] logs) logs"
    by (rule dedup_spec_subseq)
  moreover have "distinct (map id' (dedup_spec (ids w) [] logs))"
    by (rule dedup_spec_distinct)
  moreover have "\<forall>r \<in> set (dedup_spec (ids w) [] logs). id' r \<noteq> [] \<and> \<not> marked (ids w) (id' r)"
    using dedup_spec_accepted [of _ "ids w" "[]" logs] by blast
  moreover have "\<forall>r \<in> set logs. \<forall>ttl. ids w (kvKey (id' r)) = Some (''1'', ttl) \<longrightarrow>
      id' r \<notin> id' ` set (dedup_spec (ids w) [] logs)"
  proof (intro ballI allI impI)
    fix r :: AIGLog and ttl
    assume "ids w (kvKey (id' r)) = Some (''1'', ttl)"
    then have m: "marked (ids w) (id' r)" by (simp add: marked_def truthy_def)
    show "id' r \<notin> id' ` set (dedup_spec (ids w) [] logs)"
    proof
      assume "id' r \<in> id' ` set (dedup_spec (ids w) [] logs)"
      then obtain x where "x \<in> set (dedup_spec (ids w) [] logs)" "id' x = id' r" by auto
      with dedup_spec_accepted [of x "ids w" "[]" logs] m show False by simp
    qed
  qed
  moreover have "\<forall>r \<in> set logs. id' r \<noteq> [] \<and> \<not> marked (ids w) (id' r) \<longrightarrow>
      id' r \<in> id' ` set (dedup_spec (ids w) [] logs)"
    using dedup_spec_complete [of _ logs "[]" "ids w"] by simp
  moreover have "\<forall>k. ids (snd (dedupAndFilter env logs w)) k =
      (if k \<in> kvKey ` id' ` set (dedup_spec (ids w) [] logs) \<and> \<not> ids_put_rejects env k
       then Some (''1'', DEDUP_TTL_DAYS env * 24 * 60 * 60)
       else ids w k)"
    using dedupAndFilter_ids [of env logs w] by simp
  ultimately show ?thesis unfolding out by simp
qed

lemma sample_dedup_spec:
  "dedup_spec (ids world_B_marked) [] [recA, recN, recB, recA2, recC] = [recA, recC]"
  by (simp add: world_B_marked_def empty_world_def recA_def recB_def recC_def recN_def recA2_def
      marked_def truthy_def kvKey_def)

theorem dedupAndFilter_filters_in_order_witness:
  "fst (dedupAndFilter (sample_env []) [recA, recN, recB, recA2, recC] world_B_marked) = [recA, recC] \<and>
   ids (snd (dedupAndFilter (sample_env []) [recA, recN, recB, recA2, recC] world_B_marked)) (kvKey ''3'')
     = Some (''1'', 3888000)"
proof -
  note t = dedupAndFilter_filters_in_order
    [of "sample_env []" "[recA, recN, recB, recA2, recC]" world_B_marked]
  from t have out:
    "fst (dedupAndFilter (sample_env []) [recA, recN, recB, recA2, recC] world_B_marked) = [recA, recC]"
    unfolding sample_dedup_spec by (rule conjunct1)
  from t have "ids (snd (dedupAndFilter (sample_env []) [recA, recN, recB, recA2, recC] world_B_marked))
       (kvKey ''3'') =
      (if kvKey ''3'' \<in> kvKey ` id' ` set [recA, recC] \<and> \<not> ids_put_rejects (sample_env []) (kvKey ''3'')
       then Some (''1'', DEDUP_TTL_DAYS (sample_env []) * 24 * 60 * 60)
       else ids world_B_marked (kvKey ''3''))"
    unfolding out by blast
  also have "\<dots> = Some (''1'', 3888000)"
    by (simp add: recC_def sample_env_def)
  finally show ?thesis using out by simp
qed

text \<open>
  C10. A backfill cycle whose fetch returns a batch that is not empty, while the dedup filter
  accepts none of its records, completes without error and returns the state it was given:
  nothing is sent to the sink, no membership marker is written, and the oldest marker is
  neither advanced nor deleted, so the next backfill cycle does the same again.
\<close>

theorem runBackfill_duplicates_only_noop:
  assumes "oldest w = Some t" and "t \<noteq> []"
    and "fetchLogs env (backfill_options env t) = Inr batch" and "batch \<noteq> []"
    and "fst (dedupAndFilter env (sort_by (compare_logs env) batch) w) = []"
  shows "runBackfill env w = (Inr (), w) \<and>
         posted (snd (runBackfill env w)) = posted w \<and>
         oldest (snd (runBackfill env w)) = Some t \<and>
         runBackfill env (snd (runBackfill env w)) = runBackfill env w"
  using runBackfill_nothing [OF assms] assms(1) by simp

theorem runBackfill_duplicates_only_noop_witness:
  "runBackfill (sample_env [recA]) world_A_marked = (Inr (), world_A_marked) \<and>
   posted (snd (runBackfill (sample_env [recA]) world_A_marked)) = posted world_A_marked \<and>
   oldest (snd (runBackfill (sample_env [recA]) world_A_marked)) = Some ''20'' \<and>
   runBackfill (sample_env [recA]) (snd (runBackfill (sample_env [recA]) world_A_marked)) =
     runBackfill (sample_env [recA]) world_A_marked"
proof (rule runBackfill_duplicates_only_noop)
  show "oldest world_A_marked = Some ''20''"
    by (simp add: world_A_marked_def empty_world_def)
  show "''20'' \<noteq> []" by simp
  show "fetchLogs (sample_env [recA]) (backfill_options (sample_env [recA]) ''20'') = Inr [recA]"
    by (rule sample_backfill_fetch_A)
  show "[recA] \<noteq> []" by simp
  show "fst (dedupAndFilter (sample_env [recA]) (sort_by (compare_logs (sample_env [recA])) [recA]) world_A_marked) = []"
    by (rule sample_dedup_A_marked)
qed

text \<open>
  C3. In every forward cycle: when the cycle fails, by a fetch or by the sink write, the
  forward cursor in the state store is what it was. The cursor changes only in a cycle whose
  two fetches succeeded, whose filtered batch is not empty and whose sink write returned
  without error, after that batch was sent; the cycle then succeeds and the cursor is, in
  one value, the timestamp and id of the last record of the filtered batch.
\<close>

theorem runForward_cursor_commit:
  "(\<forall>e. fst (runForward env now w) = Inl e \<longrightarrow> forward (snd (runForward env now w)) = forward w) \<and>
   (forward (snd (runForward env now w)) \<noteq> forward w \<longrightarrow>
      (\<exists>allLogs. forward_fetch env now w = Inr allLogs \<and>
         fst (dedupAndFilter env allLogs w) \<noteq> [] \<and>
         sink_outcome env (fst (dedupAndFilter env allLogs w)) = Inr () \<and>
         fst (runForward env now w) = Inr () \<and>
         posted (snd (runForward env now w)) = posted w @ [fst (dedupAndFilter env allLogs w)] \<and>
         forward (snd (runForward env now w)) =
           Some \<lparr>c_ts = created_at (last (fst (dedupAndFilter env allLogs w))),
                 c_id = id' (last (fst (dedupAndFilter env allLogs w)))\<rparr>)) \<and>
   (\<forall>allLogs. forward_fetch env now w = Inr allLogs \<and>
         fst (dedupAndFilter env allLogs w) \<noteq> [] \<and>
         sink_outcome env (fst (dedupAndFilter env allLogs w)) = Inr () \<longrightarrow>
      fst (runForward env now w) = Inr () \<and>
      forward (snd (runForward env now w)) =
        Some \<lparr>c_ts = created_at (last (fst (dedupAndFilter env allLogs w))),
              c_id = id' (last (fst (dedupAndFilter env allLogs w)))\<rparr>)"
proof (intro conjI allI impI)
  fix e
  assume "fst (runForward env now w) = Inl e"
  then show "forward (snd (runForward env now w)) = forward w"
    using runForward_error_frame by blast
next
  assume "forward (snd (runForward env now w)) \<noteq> forward w"
  then show "\<exists>allLogs. forward_fetch env now w = Inr allLogs \<and>
         fst (dedupAndFilter env allLogs w) \<noteq> [] \<and>
         sink_outcome env (fst (dedupAndFilter env allLogs w)) = Inr () \<and>
         fst (runForward env now w) = Inr () \<and>
         posted (snd (runForward env now w)) = posted w @ [fst (dedupAndFilter env allLogs w)] \<and>
         forward (snd (runForward env now w)) =
           Some \<lparr>c_ts = created_at (last (fst (dedupAndFilter env allLogs w))),
                 c_id = id' (last (fst (dedupAndFilter env allLogs w)))\<rparr>"
    by (rule runForward_cursor_moved)
next
  fix allLogs
  assume a: "forward_fetch env now w = Inr allLogs \<and>
         fst (dedupAndFilter env allLogs w) \<noteq> [] \<and>
         sink_outcome env (fst (dedupAndFilter env allLogs w)) = Inr ()"
  then have c: "fst (runForward env now w) = Inr () \<and>
         posted (snd (runForward env now w)) = posted w @ [fst (dedupAndFilter env allLogs w)] \<and>
         forward (snd (runForward env now w)) =
             Some \<lparr>c_ts = created_at (last (fst (dedupAndFilter env allLogs w))),
                   c_id = id' (last (fst (dedupAndFilter env allLogs w)))\<rparr>"
    using runForward_committed by blast
  from c show "fst (runForward env now w) = Inr ()" by simp
  from c show "forward (snd (runForward env now w)) =
        Some \<lparr>c_ts = created_at (last (fst (dedupAndFilter env allLogs w))),
              c_id = id' (last (fst (dedupAndFilter env allLogs w)))\<rparr>" by simp
qed

theorem runForward_cursor_commit_witness:
  "fst (runForward (sink_down_env sample_src) ''09'' world_cursor_A) =
     Inl (BigQueryHttpError 503 ''unavailable'') \<and>
   forward (snd (runForward (sink_down_env sample_src) ''09'' world_cursor_A)) =
     Some \<lparr>c_ts = ''10'', c_id = ''1''\<rparr> \<and>
   fst (runForward (sample_env sample_src) ''09'' world_cursor_A) = Inr () \<and>
   forward (snd (runForward (sample_env sample_src) ''09'' world_cursor_A)) =
     Some \<lparr>c_ts = ''20'', c_id = ''3''\<rparr>"
proof -
  have down: "fst (runForward (sink_down_env sample_src) ''09'' world_cursor_A) =
      Inl (BigQueryHttpError 503 ''unavailable'')"
    using runForward_sink_error [of "sink_down_env sample_src" "''09''" world_cursor_A "[recB, recC]"
        "[recB, recC]" "BigQueryHttpError 503 ''unavailable''"]
    by (simp add: sample_forward_fetch sample_forward_dedup sample_sink_down)
  with runForward_cursor_commit [of "sink_down_env sample_src" "''09''" world_cursor_A]
  have "forward (snd (runForward (sink_down_env sample_src) ''09'' world_cursor_A)) =
      forward world_cursor_A" by blast
  then have unchanged: "forward (snd (runForward (sink_down_env sample_src) ''09'' world_cursor_A)) =
      Some \<lparr>c_ts = ''10'', c_id = ''1''\<rparr>"
    by (simp add: world_cursor_A_def)
  have "forward_fetch (sample_env sample_src) ''09'' world_cursor_A = Inr [recB, recC] \<and>
      fst (dedupAndFilter (sample_env sample_src) [recB, recC] world_cursor_A) \<noteq> [] \<and>
      sink_outcome (sample_env sample_src)
        (fst (dedupAndFilter (sample_env sample_src) [recB, recC] world_cursor_A)) = Inr ()"
    by (simp add: sample_forward_fetch sample_forward_dedup sample_sink_ok)
  with runForward_cursor_commit [of "sample_env sample_src" "''09''" world_cursor_A]
  have "fst (runForward (sample_env sample_src) ''09'' world_cursor_A) = Inr () \<and>
      forward (snd (runForward (sample_env sample_src) ''09'' world_cursor_A)) =
        Some \<lparr>c_ts = created_at (last (fst (dedupAndFilter (sample_env sample_src) [recB, recC] world_cursor_A))),
              c_id = id' (last (fst (dedupAndFilter (sample_env sample_src) [recB, recC] world_cursor_A)))\<rparr>"
    by blast
  then have moved: "fst (runForward (sample_env sample_src) ''09'' world_cursor_A) = Inr () \<and>
      forward (snd (runForward (sample_env sample_src) ''09'' world_cursor_A)) =
        Some \<lparr>c_ts = ''20'', c_id = ''3''\<rparr>"
    by (simp add: sample_forward_dedup)
  from down unchanged moved show ?thesis by simp
qed

text \<open>
  C8. Whichever membership writes reject, the dedup filter returns its full accepted output,
  the batch filtered as the design describes; when every write rejects, the store is left
  as it was and the output is still returned.
  A forward or backfill cycle has the same outcome, sends the same batch and commits the
  same cursor and oldest marker whatever set of membership writes rejects: a rejected
  marker write never fails the cycle.
\<close>

theorem marking_failures_swallowed:
  "fst (dedupAndFilter (env\<lparr>ids_put_rejects := rej\<rparr>) logs w) = dedup_spec (ids w) [] logs \<and>
   fst (dedupAndFilter (env\<lparr>ids_put_rejects := rej\<rparr>) logs w) = fst (dedupAndFilter env logs w) \<and>
   snd (dedupAndFilter (env\<lparr>ids_put_rejects := (\<lambda>k. True)\<rparr>) logs w) = w \<and>
   fst (runForward (env\<lparr>ids_put_rejects := rej\<rparr>) now w) = fst (runForward env now w) \<and>
   forward (snd (runForward (env\<lparr>ids_put_rejects := rej\<rparr>) now w)) =
     forward (snd (runForward env now w)) \<and>
   oldest (snd (runForward (env\<lparr>ids_put_rejects := rej\<rparr>) now w)) =
     oldest (snd (runForward env now w)) \<and>
   posted (snd (runForward (env\<lparr>ids_put_rejects := rej\<rparr>) now w)) =
     posted (snd (runForward env now w)) \<and>
   fst (runBackfill (env\<lparr>ids_put_rejects := rej\<rparr>) w) = fst (runBackfill env w) \<and>
   oldest (snd (runBackfill (env\<lparr>ids_put_rejects := rej\<rparr>) w)) =
     oldest (snd (runBackfill env w)) \<and>
   posted (snd (runBackfill (env\<lparr>ids_put_rejects := rej\<rparr>) w)) =
     posted (snd (runBackfill env w))"
proof -
  let ?env = "env\<lparr>ids_put_rejects := rej\<rparr>"
  have ff: "forward_fetch ?env now w = forward_fetch env now w"
    by (rule forward_fetch_env) simp_all
  have bf: "backfill_fetch ?env w = backfill_fetch env w"
    by (rule backfill_fetch_env) simp_all
  have so: "sink_outcome ?env l = sink_outcome env l" for l
    by (rule sink_outcome_env) simp_all
  have tok: "token_endpoint ?env = token_endpoint env" by simp
  have cl: "compare_logs ?env = compare_logs env"
    by (rule compare_logs_env) simp
  have 1: "fst (dedupAndFilter ?env logs w) = dedup_spec (ids w) [] logs"
    by (rule dedupAndFilter_output)
  have 2: "fst (dedupAndFilter ?env logs w) = fst (dedupAndFilter env logs w)"
    by (simp add: dedupAndFilter_output)
  have 3: "snd (dedupAndFilter (env\<lparr>ids_put_rejects := (\<lambda>k. True)\<rparr>) logs w) = w"
    by (simp add: dedupAndFilter_def Let_def kvPromises_all_reject)
  have 4: "fst (runForward ?env now w) = fst (runForward env now w)"
    unfolding runForward_outcome ff so ..
  have 5: "forward (snd (runForward ?env now w)) = forward (snd (runForward env now w))"
    unfolding runForward_forward ff so ..
  have 6: "oldest (snd (runForward ?env now w)) = oldest (snd (runForward env now w))"
    unfolding runForward_oldest ff so ..
  have 7: "posted (snd (runForward ?env now w)) = posted (snd (runForward env now w))"
    unfolding runForward_posted ff tok ..
  have 8: "fst (runBackfill ?env w) = fst (runBackfill env w)"
    unfolding runBackfill_outcome bf cl so ..
  have 9: "oldest (snd (runBackfill ?env w)) = oldest (snd (runBackfill env w))"
    unfolding runBackfill_oldest bf cl so ..
  have 10: "posted (snd (runBackfill ?env w)) = posted (snd (runBackfill env w))"
    unfolding runBackfill_posted bf cl tok ..
  show ?thesis
    by (intro conjI) (rule 1 2 3 4 5 6 7 8 9 10)+
qed

theorem marking_failures_swallowed_witness:
  "fst (dedupAndFilter (marking_down_env sample_src) [recB, recC] world_cursor_A) = [recB, recC] \<and>
   snd (dedupAndFilter (marking_down_env sample_src) [recB, recC] world_cursor_A) = world_cursor_A \<and>
   fst (runForward (marking_down_env sample_src) ''09'' world_cursor_A) = Inr () \<and>
   forward (snd (runForward (marking_down_env sample_src) ''09'' world_cursor_A)) =
     Some \<lparr>c_ts = ''20'', c_id = ''3''\<rparr>"
proof -
  note t = marking_failures_swallowed
    [where env = "sample_env sample_src" and rej = "\<lambda>k. True" and logs = "[recB, recC]"
       and w = world_cursor_A and now = "''09''", folded marking_down_env_def]
  have run: "fst (runForward (sample_env sample_src) ''09'' world_cursor_A) = Inr () \<and>
      forward (snd (runForward (sample_env sample_src) ''09'' world_cursor_A)) =
        Some \<lparr>c_ts = ''20'', c_id = ''3''\<rparr>"
    using runForward_committed [of "sample_env sample_src" "''09''" world_cursor_A "[recB, recC]"]
    by (simp add: sample_forward_fetch sample_forward_dedup sample_sink_ok)
  from t have 1: "fst (dedupAndFilter (marking_down_env sample_src) [recB, recC] world_cursor_A) =
      fst (dedupAndFilter (sample_env sample_src) [recB, recC] world_cursor_A)"
    by (rule conjunct1 [OF conjunct2])
  from t have 3: "snd (dedupAndFilter (marking_down_env sample_src) [recB, recC] world_cursor_A) =
      world_cursor_A"
    by (rule conjunct1 [OF conjunct2 [OF conjunct2]])
  from t have 4: "fst (runForward (marking_down_env sample_src) ''09'' world_cursor_A) =
      fst (runForward (sample_env sample_src) ''09'' world_cursor_A)"
    by (rule conjunct1 [OF conjunct2 [OF conjunct2 [OF conjunct2]]])
  from t have 5: "forward (snd (runForward (marking_down_env sample_src) ''09'' world_cursor_A)) =
      forward (snd (runForward (sample_env sample_src) ''09'' world_cursor_A))"
    by (rule conjunct1 [OF conjunct2 [OF conjunct2 [OF conjunct2 [OF conjunct2]]]])
  show ?thesis
    unfolding 1 3 4 5 sample_forward_dedup using run by simp
qed

text \<open>
  C2, as the code has it. With a forward cursor in the store: forward cycles that abort in
  a fetch leave the state as it was, however many there are, so the cycle that then runs
  against the unchanged source is the cycle the first attempt would have been, whatever the
  clock reads: the same batch is sent and the same cursor is committed. A cycle that aborts
  at the sink write has already written the membership markers of its batch (where the
  writes did not reject): it leaves the cursor, and the retry fetches the same records,
  filters all of them away, sends nothing and leaves the state, cursor included, as it is.
\<close>

theorem forward_retry:
  "(forward w = Some c \<and>
    (\<forall>(env', now') \<in> set attempts. \<exists>e. forward_fetch env' now' w = Inl e) \<longrightarrow>
      forward_cycles attempts w = w \<and>
      runForward env now' (forward_cycles attempts w) = runForward env now w) \<and>
   (\<forall>allLogs e. forward_fetch env now w = Inr allLogs \<and>
      dedup_spec (ids w) [] allLogs \<noteq> [] \<and>
      sink_outcome env (dedup_spec (ids w) [] allLogs) = Inl e \<and>
      (\<forall>r \<in> set (dedup_spec (ids w) [] allLogs). \<not> ids_put_rejects env (kvKey (id' r))) \<and>
      forward_fetch env' now' w = Inr allLogs \<longrightarrow>
        fst (runForward env now w) = Inl e \<and>
        forward (snd (runForward env now w)) = forward w \<and>
        forward_fetch env' now' (snd (runForward env now w)) = Inr allLogs \<and>
        fst (dedupAndFilter env' allLogs (snd (runForward env now w))) = [] \<and>
        runForward env' now' (snd (runForward env now w)) = (Inr (), snd (runForward env now w)))"
proof (intro conjI impI allI)
  assume a: "forward w = Some c \<and>
    (\<forall>(env', now') \<in> set attempts. \<exists>e. forward_fetch env' now' w = Inl e)"
  then have same: "forward_cycles attempts w = w"
    using forward_cycles_fetch_aborts by blast
  then show "forward_cycles attempts w = w" .
  from a have "runForward env now' w = runForward env now w"
    using runForward_clock by blast
  with same show "runForward env now' (forward_cycles attempts w) = runForward env now w"
    by simp
next
  fix allLogs e
  assume "forward_fetch env now w = Inr allLogs \<and>
      dedup_spec (ids w) [] allLogs \<noteq> [] \<and>
      sink_outcome env (dedup_spec (ids w) [] allLogs) = Inl e \<and>
      (\<forall>r \<in> set (dedup_spec (ids w) [] allLogs). \<not> ids_put_rejects env (kvKey (id' r))) \<and>
      forward_fetch env' now' w = Inr allLogs"
  then have b: "fst (runForward env now w) = Inl e \<and>
         forward (snd (runForward env now w)) = forward w \<and>
         forward_fetch env' now' (snd (runForward env now w)) = Inr allLogs \<and>
         fst (dedupAndFilter env' allLogs (snd (runForward env now w))) = [] \<and>
         runForward env' now' (snd (runForward env now w)) = (Inr (), snd (runForward env now w))"
    using runForward_after_sink_abort by blast
  from b show "fst (runForward env now w) = Inl e" by simp
  from b show "forward (snd (runForward env now w)) = forward w" by simp
  from b show "forward_fetch env' now' (snd (runForward env now w)) = Inr allLogs" by simp
  from b show "fst (dedupAndFilter env' allLogs (snd (runForward env now w))) = []" by simp
  from b show "runForward env' now' (snd (runForward env now w)) =
      (Inr (), snd (runForward env now w))" by simp
qed

theorem forward_retry_witness:
  "forward_cycles [(api_down_env sample_src, ''08''), (api_down_env sample_src, ''09'')]
     world_cursor_A = world_cursor_A \<and>
   runForward (sample_env sample_src) ''10''
     (forward_cycles [(api_down_env sample_src, ''08''), (api_down_env sample_src, ''09'')]
        world_cursor_A) =
     runForward (sample_env sample_src) ''07'' world_cursor_A \<and>
   runForward (sample_env sample_src) ''09''
     (snd (runForward (sink_down_env sample_src) ''09'' world_cursor_A)) =
     (Inr (), snd (runForward (sink_down_env sample_src) ''09'' world_cursor_A))"
proof -
  note t1 = forward_retry
    [where w = world_cursor_A and c = "\<lparr>c_ts = ''10'', c_id = ''1''\<rparr>"
       and attempts = "[(api_down_env sample_src, ''08''), (api_down_env sample_src, ''09'')]"
       and env = "sample_env sample_src" and now = "''07''" and now' = "''10''"]
  note t2 = forward_retry
    [where w = world_cursor_A and env = "sink_down_env sample_src" and now = "''09''"
       and env' = "sample_env sample_src" and now' = "''09''"]
  have h1: "forward world_cursor_A = Some \<lparr>c_ts = ''10'', c_id = ''1''\<rparr> \<and>
    (\<forall>(env', now') \<in> set [(api_down_env sample_src, ''08''), (api_down_env sample_src, ''09'')].
       \<exists>e. forward_fetch env' now' world_cursor_A = Inl e)"
    by (simp add: api_down_forward_fetch world_cursor_A_def)
  have spec: "dedup_spec (ids world_cursor_A) [] [recB, recC] = [recB, recC]"
    using sample_forward_dedup [of "sample_env sample_src"] by (simp only: dedupAndFilter_output)
  have h2: "forward_fetch (sink_down_env sample_src) ''09'' world_cursor_A = Inr [recB, recC] \<and>
      dedup_spec (ids world_cursor_A) [] [recB, recC] \<noteq> [] \<and>
      sink_outcome (sink_down_env sample_src) (dedup_spec (ids world_cursor_A) [] [recB, recC]) =
        Inl (BigQueryHttpError 503 ''unavailable'') \<and>
      (\<forall>r \<in> set (dedup_spec (ids world_cursor_A) [] [recB, recC]).
         \<not> ids_put_rejects (sink_down_env sample_src) (kvKey (id' r))) \<and>
      forward_fetch (sample_env sample_src) ''09'' world_cursor_A = Inr [recB, recC]"
    unfolding spec by (simp add: sample_forward_fetch sample_sink_down)
  from t1 h1 have a: "forward_cycles
      [(api_down_env sample_src, ''08''), (api_down_env sample_src, ''09'')] world_cursor_A =
      world_cursor_A \<and>
    runForward (sample_env sample_src) ''10''
     (forward_cycles [(api_down_env sample_src, ''08''), (api_down_env sample_src, ''09'')]
        world_cursor_A) =
     runForward (sample_env sample_src) ''07'' world_cursor_A"
    by blast
  from t2 h2 have b: "runForward (sample_env sample_src) ''09''
     (snd (runForward (sink_down_env sample_src) ''09'' world_cursor_A)) =
     (Inr (), snd (runForward (sink_down_env sample_src) ''09'' world_cursor_A))"
    by blast
  from a b show ?thesis by blast
qed

text \<open>
  C2 as stated fails. In the sample scenario the first attempt filters the batch to
  \<open>[B, C]\<close> and aborts at the sink write. The retry against the same source filters the
  same fetch to the empty batch and leaves the cursor at \<open>A\<close>, while a cycle that had
  committed would have moved it to \<open>C\<close>.
\<close>

theorem forward_retry_after_sink_abort_counterexample:
  "fst (runForward (sink_down_env sample_src) ''09'' world_cursor_A) =
     Inl (BigQueryHttpError 503 ''unavailable'') \<and>
   fst (dedupAndFilter (sink_down_env sample_src) [recB, recC] world_cursor_A) = [recB, recC] \<and>
   fst (dedupAndFilter (sample_env sample_src) [recB, recC]
     (snd (runForward (sink_down_env sample_src) ''09'' world_cursor_A))) = [] \<and>
   forward (snd (runForward (sample_env sample_src) ''09''
     (snd (runForward (sink_down_env sample_src) ''09'' world_cursor_A)))) =
     Some \<lparr>c_ts = ''10'', c_id = ''1''\<rparr> \<and>
   forward (snd (runForward (sample_env sample_src) ''09'' world_cursor_A)) =
     Some \<lparr>c_ts = ''20'', c_id = ''3''\<rparr>"
proof -
  note a = sample_sink_abort
  have committed: "forward (snd (runForward (sample_env sample_src) ''09'' world_cursor_A)) =
     Some \<lparr>c_ts = ''20'', c_id = ''3''\<rparr>"
    using runForward_committed [of "sample_env sample_src" "''09''" world_cursor_A "[recB, recC]"]
    by (simp add: sample_forward_fetch sample_forward_dedup sample_sink_ok)
  have "forward (snd (runForward (sample_env sample_src) ''09''
     (snd (runForward (sink_down_env sample_src) ''09'' world_cursor_A)))) =
     forward world_cursor_A"
    using a by simp
  then have stuck: "forward (snd (runForward (sample_env sample_src) ''09''
     (snd (runForward (sink_down_env sample_src) ''09'' world_cursor_A)))) =
     Some \<lparr>c_ts = ''10'', c_id = ''1''\<rparr>"
    by (simp add: world_cursor_A_def)
  from a committed stuck show ?thesis by (simp add: sample_forward_dedup)
qed





section \<open>C7: sink failures and row errors\<close>

text \<open>
  C7. For every batch that is not empty and is given to the sink writer with a token: a
  response that is not ok makes the call fail with the sink error, and a response that is
  ok makes the call succeed whatever per-row insert errors it carries. For the callers, in
  a cycle that fetched records of which the dedup filter accepted some, with a token: when
  the sink answers ok with any per-row errors, the forward cycle succeeds, has posted the
  batch and sets the cursor to the last record of the batch, and the backfill cycle
  succeeds, has posted the batch and moves the oldest marker to the first timestamp of the
  batch (or deletes it at the stop boundary); when the sink answers with a response that
  is not ok, the cycle fails with the sink error and the cursor and the oldest marker stay
  as they were. In every cycle whose sink answers with a response that is not ok the cursor
  and the marker stay, and a cycle whose sink reports row errors ends exactly as the cycle
  whose sink reports none.
\<close>

theorem sink_failure_and_row_errors:
  "(\<forall>t. logs \<noteq> [] \<and> token_endpoint env = TokenOk t \<and>
        insertAll_endpoint env logs = InsertNotOk status errorText \<longrightarrow>
      fst (bqInsertAll env logs w) = Inl (BigQueryHttpError status errorText)) \<and>
   (\<forall>t insertErrors. logs \<noteq> [] \<and> token_endpoint env = TokenOk t \<and>
        insertAll_endpoint env logs = InsertOk insertErrors \<longrightarrow>
      fst (bqInsertAll env logs w) = Inr ()) \<and>
   forward (snd (runForward (env\<lparr>insertAll_endpoint := (\<lambda>rows. InsertNotOk status errorText)\<rparr>) now w))
     = forward w \<and>
   oldest (snd (runForward (env\<lparr>insertAll_endpoint := (\<lambda>rows. InsertNotOk status errorText)\<rparr>) now w))
     = oldest w \<and>
   (posted (snd (runForward (env\<lparr>insertAll_endpoint := (\<lambda>rows. InsertNotOk status errorText)\<rparr>) now w))
      \<noteq> posted w \<longrightarrow>
    fst (runForward (env\<lparr>insertAll_endpoint := (\<lambda>rows. InsertNotOk status errorText)\<rparr>) now w)
      = Inl (BigQueryHttpError status errorText)) \<and>
   (posted (snd (runBackfill (env\<lparr>insertAll_endpoint := (\<lambda>rows. InsertNotOk status errorText)\<rparr>) w))
      \<noteq> posted w \<longrightarrow>
    fst (runBackfill (env\<lparr>insertAll_endpoint := (\<lambda>rows. InsertNotOk status errorText)\<rparr>) w)
      = Inl (BigQueryHttpError status errorText) \<and>
    oldest (snd (runBackfill (env\<lparr>insertAll_endpoint := (\<lambda>rows. InsertNotOk status errorText)\<rparr>) w))
      = oldest w) \<and>
   runForward (env\<lparr>insertAll_endpoint := (\<lambda>rows. InsertOk (errs rows))\<rparr>) now w =
     runForward (env\<lparr>insertAll_endpoint := (\<lambda>rows. InsertOk None)\<rparr>) now w \<and>
   runBackfill (env\<lparr>insertAll_endpoint := (\<lambda>rows. InsertOk (errs rows))\<rparr>) w =
     runBackfill (env\<lparr>insertAll_endpoint := (\<lambda>rows. InsertOk None)\<rparr>) w \<and>
   (\<forall>allLogs t. forward_fetch env now w = Inr allLogs \<and>
        dedup_spec (ids w) [] allLogs \<noteq> [] \<and> token_endpoint env = TokenOk t \<longrightarrow>
      fst (runForward (env\<lparr>insertAll_endpoint := (\<lambda>rows. InsertOk (errs rows))\<rparr>) now w) = Inr () \<and>
      posted (snd (runForward (env\<lparr>insertAll_endpoint := (\<lambda>rows. InsertOk (errs rows))\<rparr>) now w)) =
        posted w @ [dedup_spec (ids w) [] allLogs] \<and>
      forward (snd (runForward (env\<lparr>insertAll_endpoint := (\<lambda>rows. InsertOk (errs rows))\<rparr>) now w)) =
        Some \<lparr>c_ts = created_at (last (dedup_spec (ids w) [] allLogs)),
              c_id = id' (last (dedup_spec (ids w) [] allLogs))\<rparr> \<and>
      fst (runForward (env\<lparr>insertAll_endpoint := (\<lambda>rows. InsertNotOk status errorText)\<rparr>) now w) =
        Inl (BigQueryHttpError status errorText)) \<and>
   (\<forall>batch t. backfill_fetch env w = Some (Inr batch) \<and>
        dedup_spec (ids w) [] (sort_by (compare_logs env) batch) \<noteq> [] \<and>
        token_endpoint env = TokenOk t \<longrightarrow>
      fst (runBackfill (env\<lparr>insertAll_endpoint := (\<lambda>rows. InsertOk (errs rows))\<rparr>) w) = Inr () \<and>
      posted (snd (runBackfill (env\<lparr>insertAll_endpoint := (\<lambda>rows. InsertOk (errs rows))\<rparr>) w)) =
        posted w @ [dedup_spec (ids w) [] (sort_by (compare_logs env) batch)] \<and>
      oldest (snd (runBackfill (env\<lparr>insertAll_endpoint := (\<lambda>rows. InsertOk (errs rows))\<rparr>) w)) =
        (if created_at (hd (dedup_spec (ids w) [] (sort_by (compare_logs env) batch))) \<le> stopAt_of w
         then None
         else Some (created_at (hd (dedup_spec (ids w) [] (sort_by (compare_logs env) batch))))) \<and>
      fst (runBackfill (env\<lparr>insertAll_endpoint := (\<lambda>rows. InsertNotOk status errorText)\<rparr>) w) =
        Inl (BigQueryHttpError status errorText) \<and>
      oldest (snd (runBackfill (env\<lparr>insertAll_endpoint := (\<lambda>rows. InsertNotOk status errorText)\<rparr>) w)) =
        oldest w)"
proof -
  let ?down = "env\<lparr>insertAll_endpoint := (\<lambda>rows. InsertNotOk status errorText)\<rparr>"
  let ?rows = "env\<lparr>insertAll_endpoint := (\<lambda>rows. InsertOk (errs rows))\<rparr>"
  have a: "\<forall>t. logs \<noteq> [] \<and> token_endpoint env = TokenOk t \<and>
        insertAll_endpoint env logs = InsertNotOk status errorText \<longrightarrow>
      fst (bqInsertAll env logs w) = Inl (BigQueryHttpError status errorText)"
    by (simp add: bqInsertAll_outcome sink_outcome_cases)
  have b: "\<forall>t insertErrors. logs \<noteq> [] \<and> token_endpoint env = TokenOk t \<and>
        insertAll_endpoint env logs = InsertOk insertErrors \<longrightarrow>
      fst (bqInsertAll env logs w) = Inr ()"
    by (simp add: bqInsertAll_outcome sink_outcome_cases)
  have never: "sink_outcome ?down l \<noteq> Inr ()" if "l \<noteq> []" for l
    using that by (simp add: sink_outcome_not_ok split: token_response.splits)
  have c1: "forward (snd (runForward ?down now w)) = forward w"
    using never by (auto simp: runForward_forward split: sum.splits)
  have c2: "oldest (snd (runForward ?down now w)) = oldest w"
    using never by (auto simp: runForward_oldest split: sum.splits)
  have c3: "posted (snd (runForward ?down now w)) \<noteq> posted w \<longrightarrow>
      fst (runForward ?down now w) = Inl (BigQueryHttpError status errorText)"
  proof
    assume "posted (snd (runForward ?down now w)) \<noteq> posted w"
    from runForward_sent [OF this] obtain allLogs t where
      ne: "dedup_spec (ids w) [] allLogs \<noteq> []" and tok: "token_endpoint ?down = TokenOk t"
      and out: "fst (runForward ?down now w) = sink_outcome ?down (dedup_spec (ids w) [] allLogs)"
      by blast
    from tok have "token_endpoint env = TokenOk t" by simp
    then show "fst (runForward ?down now w) = Inl (BigQueryHttpError status errorText)"
      unfolding out sink_outcome_not_ok [OF ne] by simp
  qed
  have cl: "compare_logs ?down = compare_logs env" "compare_logs ?rows = compare_logs env"
    by (rule compare_logs_env; simp)+
  have d: "posted (snd (runBackfill ?down w)) \<noteq> posted w \<longrightarrow>
      fst (runBackfill ?down w) = Inl (BigQueryHttpError status errorText) \<and>
      oldest (snd (runBackfill ?down w)) = oldest w"
  proof
    assume "posted (snd (runBackfill ?down w)) \<noteq> posted w"
    from runBackfill_sent [OF this] obtain batch t where
      fetched: "backfill_fetch ?down w = Some (Inr batch)" and batch: "batch \<noteq> []"
      and ne: "dedup_spec (ids w) [] (sort_by (compare_logs ?down) batch) \<noteq> []"
      and tok: "token_endpoint ?down = TokenOk t"
      and out: "fst (runBackfill ?down w) =
        sink_outcome ?down (dedup_spec (ids w) [] (sort_by (compare_logs ?down) batch))"
      by blast
    from tok have "token_endpoint env = TokenOk t" by simp
    then have "fst (runBackfill ?down w) = Inl (BigQueryHttpError status errorText)"
      unfolding out sink_outcome_not_ok [OF ne] by simp
    moreover have "oldest (snd (runBackfill ?down w)) = oldest w"
      using fetched batch never [OF ne] by (rule runBackfill_sink_failed)
    ultimately show "fst (runBackfill ?down w) = Inl (BigQueryHttpError status errorText) \<and>
      oldest (snd (runBackfill ?down w)) = oldest w" ..
  qed
  have e: "runForward ?rows now w =
     runForward (env\<lparr>insertAll_endpoint := (\<lambda>rows. InsertOk None)\<rparr>) now w"
    by (rule runForward_env [OF _ _ _ _ _ _ sink_outcome_row_errors]) simp_all
  have f: "runBackfill ?rows w =
     runBackfill (env\<lparr>insertAll_endpoint := (\<lambda>rows. InsertOk None)\<rparr>) w"
    by (rule runBackfill_env [OF _ _ _ _ _ _ _ sink_outcome_row_errors]) simp_all
  have ff: "forward_fetch ?rows now w = forward_fetch env now w"
    "forward_fetch ?down now w = forward_fetch env now w"
    by (rule forward_fetch_env; simp)+
  have bf: "backfill_fetch ?rows w = backfill_fetch env w"
    "backfill_fetch ?down w = backfill_fetch env w"
    by (rule backfill_fetch_env; simp)+
  have g: "\<forall>allLogs t. forward_fetch env now w = Inr allLogs \<and>
        dedup_spec (ids w) [] allLogs \<noteq> [] \<and> token_endpoint env = TokenOk t \<longrightarrow>
      fst (runForward ?rows now w) = Inr () \<and>
      posted (snd (runForward ?rows now w)) = posted w @ [dedup_spec (ids w) [] allLogs] \<and>
      forward (snd (runForward ?rows now w)) =
        Some \<lparr>c_ts = created_at (last (dedup_spec (ids w) [] allLogs)),
              c_id = id' (last (dedup_spec (ids w) [] allLogs))\<rparr> \<and>
      fst (runForward ?down now w) = Inl (BigQueryHttpError status errorText)"
  proof (intro allI impI, elim conjE)
    fix allLogs t
    assume fetched: "forward_fetch env now w = Inr allLogs"
      and ne: "dedup_spec (ids w) [] allLogs \<noteq> []"
      and tok: "token_endpoint env = TokenOk t"
    have ok: "sink_outcome ?rows (dedup_spec (ids w) [] allLogs) = Inr ()"
      using ne tok by (simp add: sink_outcome_cases)
    have bad: "sink_outcome ?down (dedup_spec (ids w) [] allLogs) =
        Inl (BigQueryHttpError status errorText)"
      using ne tok by (simp add: sink_outcome_cases)
    have g1: "fst (runForward ?rows now w) = Inr ()"
      using ne by (simp add: runForward_outcome ff fetched ok)
    have g2: "posted (snd (runForward ?rows now w)) = posted w @ [dedup_spec (ids w) [] allLogs]"
      using ne tok by (simp add: runForward_posted ff fetched)
    have g3: "forward (snd (runForward ?rows now w)) =
        Some \<lparr>c_ts = created_at (last (dedup_spec (ids w) [] allLogs)),
              c_id = id' (last (dedup_spec (ids w) [] allLogs))\<rparr>"
      using ne by (simp add: runForward_forward ff fetched ok)
    have g4: "fst (runForward ?down now w) = Inl (BigQueryHttpError status errorText)"
      using ne by (simp add: runForward_outcome ff fetched bad)
    from g1 g2 g3 g4 show "fst (runForward ?rows now w) = Inr () \<and>
      posted (snd (runForward ?rows now w)) = posted w @ [dedup_spec (ids w) [] allLogs] \<and>
      forward (snd (runForward ?rows now w)) =
        Some \<lparr>c_ts = created_at (last (dedup_spec (ids w) [] allLogs)),
              c_id = id' (last (dedup_spec (ids w) [] allLogs))\<rparr> \<and>
      fst (runForward ?down now w) = Inl (BigQueryHttpError status errorText)"
      by (intro conjI)
  qed
  have h: "\<forall>batch t. backfill_fetch env w = Some (Inr batch) \<and>
        dedup_spec (ids w) [] (sort_by (compare_logs env) batch) \<noteq> [] \<and>
        token_endpoint env = TokenOk t \<longrightarrow>
      fst (runBackfill ?rows w) = Inr () \<and>
      posted (snd (runBackfill ?rows w)) =
        posted w @ [dedup_spec (ids w) [] (sort_by (compare_logs env) batch)] \<and>
      oldest (snd (runBackfill ?rows w)) =
        (if created_at (hd (dedup_spec (ids w) [] (sort_by (compare_logs env) batch))) \<le> stopAt_of w
         then None
         else Some (created_at (hd (dedup_spec (ids w) [] (sort_by (compare_logs env) batch))))) \<and>
      fst (runBackfill ?down w) = Inl (BigQueryHttpError status errorText) \<and>
      oldest (snd (runBackfill ?down w)) = oldest w"
  proof (intro allI impI, elim conjE)
    fix batch t
    let ?toSend = "dedup_spec (ids w) [] (sort_by (compare_logs env) batch)"
    assume fetched: "backfill_fetch env w = Some (Inr batch)"
      and ne: "?toSend \<noteq> []"
      and tok: "token_endpoint env = TokenOk t"
    from ne have batch: "batch \<noteq> []" by auto
    have ok: "sink_outcome ?rows ?toSend = Inr ()"
      using ne tok by (simp add: sink_outcome_cases)
    have bad: "sink_outcome ?down ?toSend = Inl (BigQueryHttpError status errorText)"
      using ne tok by (simp add: sink_outcome_cases)
    have h1: "fst (runBackfill ?rows w) = Inr ()"
      using ne by (simp add: runBackfill_outcome bf fetched cl ok del: sort_by_simps)
    have h2: "posted (snd (runBackfill ?rows w)) = posted w @ [?toSend]"
      using ne tok by (simp add: runBackfill_posted bf fetched cl del: sort_by_simps)
    have h3: "oldest (snd (runBackfill ?rows w)) =
        (if created_at (hd ?toSend) \<le> stopAt_of w then None
         else Some (created_at (hd ?toSend)))"
      using ne batch by (simp add: runBackfill_oldest bf fetched cl ok del: sort_by_simps)
    have h4: "fst (runBackfill ?down w) = Inl (BigQueryHttpError status errorText)"
      using ne by (simp add: runBackfill_outcome bf fetched cl bad del: sort_by_simps)
    have h5: "oldest (snd (runBackfill ?down w)) = oldest w"
      using ne batch by (simp add: runBackfill_oldest bf fetched cl bad del: sort_by_simps)
    from h1 h2 h3 h4 h5 show "fst (runBackfill ?rows w) = Inr () \<and>
      posted (snd (runBackfill ?rows w)) = posted w @ [?toSend] \<and>
      oldest (snd (runBackfill ?rows w)) =
        (if created_at (hd ?toSend) \<le> stopAt_of w then None
         else Some (created_at (hd ?toSend))) \<and>
      fst (runBackfill ?down w) = Inl (BigQueryHttpError status errorText) \<and>
      oldest (snd (runBackfill ?down w)) = oldest w"
      by (intro conjI)
  qed
  show ?thesis
    by (intro conjI) (rule a b c1 c2 c3 d e f g h)+
qed

theorem sink_failure_and_row_errors_witness:
  "fst (bqInsertAll (sink_down_env sample_src) [recB, recC] world_cursor_A) =
     Inl (BigQueryHttpError 503 ''unavailable'') \<and>
   fst (bqInsertAll (row_errors_env sample_src) [recB, recC] world_cursor_A) = Inr () \<and>
   forward (snd (runForward (sink_down_env sample_src) ''09'' world_cursor_A)) =
     Some \<lparr>c_ts = ''10'', c_id = ''1''\<rparr> \<and>
   runForward (row_errors_env sample_src) ''09'' world_cursor_A =
     runForward (sample_env sample_src) ''09'' world_cursor_A \<and>
   fst (runForward (row_errors_env sample_src) ''09'' world_cursor_A) = Inr () \<and>
   posted (snd (runForward (row_errors_env sample_src) ''09'' world_cursor_A)) = [[recB, recC]] \<and>
   forward (snd (runForward (row_errors_env sample_src) ''09'' world_cursor_A)) =
     Some \<lparr>c_ts = ''20'', c_id = ''3''\<rparr> \<and>
   fst (runForward (sink_down_env sample_src) ''09'' world_cursor_A) =
     Inl (BigQueryHttpError 503 ''unavailable'') \<and>
   fst (runBackfill (row_errors_env sample_src) world_oldest_30_stop_05) = Inr () \<and>
   posted (snd (runBackfill (row_errors_env sample_src) world_oldest_30_stop_05)) =
     [[recA, recB, recC]] \<and>
   oldest (snd (runBackfill (row_errors_env sample_src) world_oldest_30_stop_05)) = Some ''10'' \<and>
   fst (runBackfill (sink_down_env sample_src) world_oldest_30_stop_05) =
     Inl (BigQueryHttpError 503 ''unavailable'') \<and>
   oldest (snd (runBackfill (sink_down_env sample_src) world_oldest_30_stop_05)) = Some ''30''"
proof -
  note down = sink_failure_and_row_errors
    [where env = "sink_down_env sample_src" and logs = "[recB, recC]" and status = 503
       and errorText = "''unavailable''" and w = world_cursor_A]
  note rows = sink_failure_and_row_errors
    [where env = "row_errors_env sample_src" and logs = "[recB, recC]" and w = world_cursor_A]
  note cycle = sink_failure_and_row_errors
    [where env = "sample_env sample_src" and status = 503 and errorText = "''unavailable''"
       and now = "''09''" and w = world_cursor_A and errs = "\<lambda>rows. Some [0]"]
  note bcycle = sink_failure_and_row_errors
    [where env = "sample_env sample_src" and status = 503 and errorText = "''unavailable''"
       and w = world_oldest_30_stop_05 and errs = "\<lambda>rows. Some [0]"]
  have a: "fst (bqInsertAll (sink_down_env sample_src) [recB, recC] world_cursor_A) =
     Inl (BigQueryHttpError 503 ''unavailable'')"
    using down by simp
  have b: "fst (bqInsertAll (row_errors_env sample_src) [recB, recC] world_cursor_A) = Inr ()"
    using rows by (simp add: row_errors_env_def)
  have same: "(sample_env sample_src)\<lparr>insertAll_endpoint := (\<lambda>rows. InsertOk None)\<rparr> =
      sample_env sample_src"
    by (simp add: sample_env_def)
  from cycle have c: "forward (snd (runForward (sink_down_env sample_src) ''09'' world_cursor_A)) =
      forward world_cursor_A"
    unfolding sink_down_env_def by (rule conjunct1 [OF conjunct2 [OF conjunct2]])
  have d: "runForward (row_errors_env sample_src) ''09'' world_cursor_A =
     runForward (sample_env sample_src) ''09'' world_cursor_A"
    using conjunct1 [OF conjunct2 [OF conjunct2 [OF conjunct2 [OF conjunct2 [OF conjunct2
      [OF conjunct2 [OF cycle]]]]]]]
    unfolding row_errors_env_def same by simp
  note fwd = conjunct1 [OF conjunct2 [OF conjunct2 [OF conjunct2 [OF conjunct2 [OF conjunct2
      [OF conjunct2 [OF conjunct2 [OF conjunct2 [OF cycle]]]]]]]]]
  note bwd = conjunct2 [OF conjunct2 [OF conjunct2 [OF conjunct2 [OF conjunct2 [OF conjunct2
      [OF conjunct2 [OF conjunct2 [OF conjunct2 [OF bcycle]]]]]]]]]
  have p1: "forward_fetch (sample_env sample_src) ''09'' world_cursor_A = Inr [recB, recC]"
    by (rule sample_forward_fetch) simp_all
  have p2: "dedup_spec (ids world_cursor_A) [] [recB, recC] = [recB, recC]"
    using sample_forward_dedup [of "sample_env sample_src"] by (simp add: dedupAndFilter_output)
  have p3: "token_endpoint (sample_env sample_src) = TokenOk ''token''" by simp
  have "forward_fetch (sample_env sample_src) ''09'' world_cursor_A = Inr [recB, recC] \<and>
        dedup_spec (ids world_cursor_A) [] [recB, recC] \<noteq> [] \<and>
        token_endpoint (sample_env sample_src) = TokenOk ''token''"
    using p1 p2 p3 by simp
  from mp [OF spec [OF spec [OF fwd]] this]
  have e: "fst (runForward (row_errors_env sample_src) ''09'' world_cursor_A) = Inr () \<and>
      posted (snd (runForward (row_errors_env sample_src) ''09'' world_cursor_A)) =
        posted world_cursor_A @ [[recB, recC]] \<and>
      forward (snd (runForward (row_errors_env sample_src) ''09'' world_cursor_A)) =
        Some \<lparr>c_ts = created_at (last [recB, recC]), c_id = id' (last [recB, recC])\<rparr> \<and>
      fst (runForward (sink_down_env sample_src) ''09'' world_cursor_A) =
        Inl (BigQueryHttpError 503 ''unavailable'')"
    unfolding row_errors_env_def sink_down_env_def p2 .
  have q1: "backfill_fetch (sample_env sample_src) world_oldest_30_stop_05 =
      Some (Inr [recC, recB, recA])"
    by (simp add: backfill_fetch_def world_oldest_30_stop_05_def sample_backfill_fetch_30)
  have q2: "dedup_spec (ids world_oldest_30_stop_05) []
      (sort_by (compare_logs (sample_env sample_src)) [recC, recB, recA]) = [recA, recB, recC]"
    unfolding sample_sort_CBA
    using sample_dedup_ABC [of world_oldest_30_stop_05 "sample_env sample_src"]
    by (simp add: dedupAndFilter_output world_oldest_30_stop_05_def)
  have "backfill_fetch (sample_env sample_src) world_oldest_30_stop_05 =
          Some (Inr [recC, recB, recA]) \<and>
        dedup_spec (ids world_oldest_30_stop_05) []
          (sort_by (compare_logs (sample_env sample_src)) [recC, recB, recA]) \<noteq> [] \<and>
        token_endpoint (sample_env sample_src) = TokenOk ''token''"
    using q1 q2 p3 by (simp del: sort_by_simps)
  from mp [OF spec [OF spec [OF bwd]] this]
  have f: "fst (runBackfill (row_errors_env sample_src) world_oldest_30_stop_05) = Inr () \<and>
      posted (snd (runBackfill (row_errors_env sample_src) world_oldest_30_stop_05)) =
        posted world_oldest_30_stop_05 @ [[recA, recB, recC]] \<and>
      oldest (snd (runBackfill (row_errors_env sample_src) world_oldest_30_stop_05)) =
        (if created_at (hd [recA, recB, recC]) \<le> stopAt_of world_oldest_30_stop_05 then None
         else Some (created_at (hd [recA, recB, recC]))) \<and>
      fst (runBackfill (sink_down_env sample_src) world_oldest_30_stop_05) =
        Inl (BigQueryHttpError 503 ''unavailable'') \<and>
      oldest (snd (runBackfill (sink_down_env sample_src) world_oldest_30_stop_05)) =
        oldest world_oldest_30_stop_05"
    unfolding row_errors_env_def sink_down_env_def q2 .
  have s: "stopAt_of world_oldest_30_stop_05 = ''05''"
    by (simp add: stopAt_of_def world_oldest_30_stop_05_def)
  from a b c d e f show ?thesis
    by (simp add: world_cursor_A_def world_oldest_30_stop_05_def s [unfolded world_oldest_30_stop_05_def])
qed

section \<open>C5: the advance step of backfill\<close>

text \<open>
  C5, as the code has it. In every backfill cycle that reaches the advance step (the fetch
  returned records, the dedup filter accepted some of them, and the sink write succeeded),
  with the batch being the accepted records in the order in which they were sent: the cycle
  succeeds and has posted the batch; if the timestamp of the first record of the batch is
  at or below the stop boundary, the oldest marker is deleted in this cycle; otherwise the
  oldest marker becomes that timestamp. Over a static source the new value is strictly
  earlier than the previous oldest marker. When the collation of the host orders the
  timestamps and ids of the fetched records as the string order does, the batch is
  ascending and its first record carries its earliest timestamp.
\<close>

theorem runBackfill_advance_or_stop:
  assumes "oldest w = Some t" and "t \<noteq> []"
    and "fetchLogs env (backfill_options env t) = Inr batch" and "batch \<noteq> []"
    and "fst (dedupAndFilter env (sort_by (compare_logs env) batch) w) = toSend"
    and "toSend \<noteq> []"
    and "sink_outcome env toSend = Inr ()"
  shows "fst (runBackfill env w) = Inr () \<and>
         posted (snd (runBackfill env w)) = posted w @ [toSend] \<and>
         (created_at (hd toSend) \<le> stopAt_of w \<longrightarrow> oldest (snd (runBackfill env w)) = None) \<and>
         (\<not> created_at (hd toSend) \<le> stopAt_of w \<longrightarrow>
            oldest (snd (runBackfill env w)) = Some (created_at (hd toSend))) \<and>
         (\<forall>src. logs_api env = static_source src \<longrightarrow> created_at (hd toSend) < t) \<and>
         (collates_as_strings env (created_at ` set batch \<union> id' ` set batch) \<longrightarrow>
            sorted (map log_key toSend) \<and>
            (\<forall>r \<in> set toSend. created_at (hd toSend) \<le> created_at r))"
proof -
  have run: "runBackfill env w =
       (Inr (), (snd (dedupAndFilter env (sort_by (compare_logs env) batch) w))
          \<lparr>posted := posted w @ [toSend],
           oldest := (if created_at (hd toSend) \<le> stopAt_of w then None
                      else Some (created_at (hd toSend)))\<rparr>)"
    using assms by (rule runBackfill_advance)
  have spec: "toSend = dedup_spec (ids w) [] (sort_by (compare_logs env) batch)"
    using assms(5) by (simp add: dedupAndFilter_output)
  have earlier: "\<forall>src. logs_api env = static_source src \<longrightarrow> created_at (hd toSend) < t"
  proof (intro allI impI)
    fix src
    assume "logs_api env = static_source src"
    from fetch_backfill_static [OF this assms(3)]
    have "\<forall>r \<in> set batch. created_at r < t" by blast
    moreover have "hd toSend \<in> set batch"
      using assms(6) dedup_spec_accepted [of "hd toSend" "ids w" "[]" "sort_by (compare_logs env) batch"]
      unfolding spec by simp
    ultimately show "created_at (hd toSend) < t" by blast
  qed
  have ascending: "collates_as_strings env (created_at ` set batch \<union> id' ` set batch) \<longrightarrow>
      sorted (map log_key toSend) \<and> (\<forall>r \<in> set toSend. created_at (hd toSend) \<le> created_at r)"
  proof
    assume "collates_as_strings env (created_at ` set batch \<union> id' ` set batch)"
    then have asc: "sort_by (compare_logs env) batch = sort_key log_key batch"
      by (rule sort_logs_as_strings)
    have srt: "sorted (map log_key toSend)"
      unfolding spec asc by (rule dedup_spec_sorted) simp
    moreover have "\<forall>r \<in> set toSend. created_at (hd toSend) \<le> created_at r"
      using sorted_hd_least [OF srt] by blast
    ultimately show "sorted (map log_key toSend) \<and>
        (\<forall>r \<in> set toSend. created_at (hd toSend) \<le> created_at r)" ..
  qed
  from run have r1: "fst (runBackfill env w) = Inr ()"
    and r2: "posted (snd (runBackfill env w)) = posted w @ [toSend]"
    and r3: "created_at (hd toSend) \<le> stopAt_of w \<longrightarrow> oldest (snd (runBackfill env w)) = None"
    and r4: "\<not> created_at (hd toSend) \<le> stopAt_of w \<longrightarrow>
            oldest (snd (runBackfill env w)) = Some (created_at (hd toSend))"
    by simp_all
  show ?thesis
    by (intro conjI) (rule r1 r2 r3 r4 earlier ascending)+
qed

theorem runBackfill_advance_or_stop_witness:
  "fst (runBackfill (sample_env sample_src) world_oldest_30_stop_05) = Inr () \<and>
   posted (snd (runBackfill (sample_env sample_src) world_oldest_30_stop_05)) =
     [[recA, recB, recC]] \<and>
   oldest (snd (runBackfill (sample_env sample_src) world_oldest_30_stop_05)) = Some ''10'' \<and>
   oldest (snd (runBackfill (sample_env sample_src) world_oldest_30_stop_15)) = None \<and>
   created_at (hd [recA, recB, recC]) < ''30'' \<and>
   sorted (map log_key [recA, recB, recC])"
proof -
  have f: "fetchLogs (sample_env sample_src) (backfill_options (sample_env sample_src) ''30'') =
      Inr [recC, recB, recA]"
    by (rule sample_backfill_fetch_30) simp_all
  have ok: "sink_outcome (sample_env sample_src) [recA, recB, recC] = Inr ()"
    by (rule sample_sink_ok) simp
  have ne: "''30'' \<noteq> []" "[recC, recB, recA] \<noteq> []" "[recA, recB, recC] \<noteq> []"
    by simp_all
  have coll: "collates_as_strings (sample_env sample_src)
      (created_at ` set [recC, recB, recA] \<union> id' ` set [recC, recB, recA])"
    by (rule collates_code_units) simp
  have o1: "oldest world_oldest_30_stop_05 = Some ''30''"
    by (simp add: world_oldest_30_stop_05_def)
  have d1: "fst (dedupAndFilter (sample_env sample_src)
        (sort_by (compare_logs (sample_env sample_src)) [recC, recB, recA])
        world_oldest_30_stop_05) = [recA, recB, recC]"
    unfolding sample_sort_CBA
    by (rule sample_dedup_ABC) (simp add: world_oldest_30_stop_05_def)
  have o2: "oldest world_oldest_30_stop_15 = Some ''30''"
    by (simp add: world_oldest_30_stop_15_def)
  have d2: "fst (dedupAndFilter (sample_env sample_src)
        (sort_by (compare_logs (sample_env sample_src)) [recC, recB, recA])
        world_oldest_30_stop_15) = [recA, recB, recC]"
    unfolding sample_sort_CBA
    by (rule sample_dedup_ABC) (simp add: world_oldest_30_stop_15_def)
  note adv = runBackfill_advance_or_stop [OF o1 ne(1) f ne(2) d1 ne(3) ok]
  note del = runBackfill_advance_or_stop [OF o2 ne(1) f ne(2) d2 ne(3) ok]
  have s1: "stopAt_of world_oldest_30_stop_05 = ''05''"
    by (simp add: stopAt_of_def world_oldest_30_stop_05_def)
  have s2: "stopAt_of world_oldest_30_stop_15 = ''15''"
    by (simp add: stopAt_of_def world_oldest_30_stop_15_def)
  have a1: "fst (runBackfill (sample_env sample_src) world_oldest_30_stop_05) = Inr ()"
    by (rule conjunct1 [OF adv])
  have a2: "posted (snd (runBackfill (sample_env sample_src) world_oldest_30_stop_05)) =
      [[recA, recB, recC]]"
    using conjunct1 [OF conjunct2 [OF adv]] by (simp add: world_oldest_30_stop_05_def)
  have a3: "oldest (snd (runBackfill (sample_env sample_src) world_oldest_30_stop_05)) = Some ''10''"
    using conjunct1 [OF conjunct2 [OF conjunct2 [OF conjunct2 [OF adv]]]]
    unfolding s1 by simp
  have a4: "oldest (snd (runBackfill (sample_env sample_src) world_oldest_30_stop_15)) = None"
    using conjunct1 [OF conjunct2 [OF conjunct2 [OF del]]]
    unfolding s2 by simp
  have a5: "created_at (hd [recA, recB, recC]) < ''30''"
    using conjunct1 [OF conjunct2 [OF conjunct2 [OF conjunct2 [OF conjunct2 [OF adv]]]]]
    by simp
  have a6: "sorted (map log_key [recA, recB, recC])"
    using conjunct2 [OF conjunct2 [OF conjunct2 [OF conjunct2 [OF conjunct2 [OF adv]]]]] coll
    by blast
  show ?thesis
    by (intro conjI) (rule a1 a2 a3 a4 a5 a6)+
qed

text \<open>
  C5 as stated fails where the collation of the host and the string order disagree. Below,
  two records are older than the marker and their timestamps differ in the case of the
  letters only; the stop boundary is the upper-case timestamp, so the earliest timestamp of
  the batch is at the boundary. The collation puts the record with the lower-case timestamp
  first, the batch is sent in that order and is not ascending, and the cycle stores the
  lower-case timestamp as the new marker instead of deleting the marker.
\<close>

theorem runBackfill_collation_counterexample:
  "backfill_fetch (case_last_env mixed_src) world_oldest_2025 = Some (Inr [recX, recY]) \<and>
   fst (runBackfill (case_last_env mixed_src) world_oldest_2025) = Inr () \<and>
   posted (snd (runBackfill (case_last_env mixed_src) world_oldest_2025)) = [[recX, recY]] \<and>
   created_at recY < created_at recX \<and>
   \<not> sorted (map log_key [recX, recY]) \<and>
   created_at recY \<le> stopAt_of world_oldest_2025 \<and>
   oldest (snd (runBackfill (case_last_env mixed_src) world_oldest_2025)) =
     Some ''2024-01-01t00:00:00z''"
proof -
  have 1: "created_at recY < created_at recX" by simp
  have 2: "\<not> sorted (map log_key [recX, recY])" by (simp add: log_key_def)
  have 3: "created_at recY \<le> stopAt_of world_oldest_2025" by simp
  show ?thesis
    by (intro conjI) (rule mixed_backfill_fetch mixed_first_backfill 1 2 3)+
qed

section \<open>C9: the oldest marker and forward sync\<close>

text \<open>
  C9. The forward cycle is annotated to record the oldest timestamp on the first run, and
  the marker is meant to be written by forward sync once. The cycle writes it whenever a
  successful batch finds no marker, so it writes it a second time after backfill has
  completed and deleted the marker. Below, the first forward cycle, from the empty state,
  sets the marker to 10; the backfill cycle finds nothing older and deletes it; and the
  forward cycle that picks up a record that has arrived since sets the marker again, to 30.
\<close>

theorem forward_writes_oldest_twice:
  "oldest empty_world = None \<and>
   oldest (snd (runForward (sample_env sample_src) ''00'' empty_world)) = Some ''10'' \<and>
   oldest (snd (runBackfill (sample_env sample_src)
      (snd (runForward (sample_env sample_src) ''00'' empty_world)))) = None \<and>
   oldest (snd (runForward (sample_env grown_src) ''00''
      (snd (runBackfill (sample_env sample_src)
        (snd (runForward (sample_env sample_src) ''00'' empty_world)))))) = Some ''30''"
proof -
  let ?w2 = "snd (runBackfill (sample_env sample_src)
      (snd (runForward (sample_env sample_src) ''00'' empty_world)))"
  have ff: "forward_fetch (sample_env grown_src) ''00'' ?w2 = Inr [recD]"
    by (rule grown_forward_fetch) (simp_all add: sample_backfill_after_forward(2))
  have "oldest (snd (runForward (sample_env grown_src) ''00'' ?w2)) = Some ''30''"
    by (simp add: runForward_oldest ff sample_backfill_after_forward(1,3) sample_sink_ok)
  then show ?thesis
    by (simp add: sample_first_forward(2) sample_backfill_after_forward(1))
qed

section \<open>C4: backfill comes to an end\<close>

text \<open>
  C4, as the code has it. Over a static source whose records have pairwise different ids, none
  empty, with a collation of the host that orders the timestamps and ids of the source as
  the string order does, a sink that accepts every batch, an initial oldest marker that is
  absent or not empty, and no membership marker in the store for a source record older
  than the marker: after at most one backfill cycle more than the source has records, the
  oldest marker is absent, and from then on every backfill cycle succeeds and changes
  nothing. Either the marker was absent from the start, or it was deleted by the last of
  these cycles, which is a cycle whose fetch returns nothing or one whose batch reaches
  the stop boundary.
\<close>

theorem backfill_terminates:
  assumes "logs_api env = static_source src"
    and "collates_as_strings env (created_at ` set src \<union> id' ` set src)"
    and "distinct (map id' src)"
    and "\<forall>r \<in> set src. id' r \<noteq> []"
    and "\<forall>logs. logs \<noteq> [] \<longrightarrow> sink_outcome env logs = Inr ()"
    and "oldest w \<noteq> Some []"
    and "\<forall>t. oldest w = Some t \<longrightarrow>
           (\<forall>r \<in> set src. created_at r < t \<longrightarrow> \<not> marked (ids w) (id' r))"
  shows "\<exists>n \<le> Suc (length src).
           oldest (backfill_cycles env n w) = None \<and>
           (\<forall>m. backfill_cycles env (n + m) w = backfill_cycles env n w \<and>
                runBackfill env (backfill_cycles env (n + m) w) =
                  (Inr (), backfill_cycles env (n + m) w)) \<and>
           ((n = 0 \<and> oldest w = None) \<or>
            (\<exists>k. n = Suc k \<and>
               (backfill_fetch env (backfill_cycles env k w) = Some (Inr []) \<or>
                reaches_boundary env (backfill_cycles env k w))))"
proof -
  have "\<exists>n \<le> Suc (length src). oldest (backfill_cycles env n w) = None \<and>
      ((n = 0 \<and> oldest w = None) \<or>
       (\<exists>k. n = Suc k \<and>
          (backfill_fetch env (backfill_cycles env k w) = Some (Inr []) \<or>
           reaches_boundary env (backfill_cycles env k w))))"
  proof (cases "oldest w")
    case None
    then have "oldest (backfill_cycles env 0 w) = None \<and>
      ((0 = (0::nat) \<and> oldest w = None) \<or>
       (\<exists>k. 0 = Suc k \<and>
          (backfill_fetch env (backfill_cycles env k w) = Some (Inr []) \<or>
           reaches_boundary env (backfill_cycles env k w))))" by simp
    then show ?thesis by (rule_tac x = 0 in exI) simp
  next
    case (Some t)
    with assms(6) have "t \<noteq> []" by auto
    from backfill_reaches_none [OF assms(1-5) Some this _ refl] assms(7) Some
    obtain k where k: "k \<le> length (filter (\<lambda>r. created_at r < t) src)"
      "oldest (backfill_cycles env (Suc k) w) = None"
      "backfill_fetch env (backfill_cycles env k w) = Some (Inr []) \<or>
       reaches_boundary env (backfill_cycles env k w)" by blast
    have "length (filter (\<lambda>r. created_at r < t) src) \<le> length src" by simp
    with k(1) have "Suc k \<le> Suc (length src)" by linarith
    moreover from k(3) have "(Suc k = 0 \<and> oldest w = None) \<or>
       (\<exists>j. Suc k = Suc j \<and>
          (backfill_fetch env (backfill_cycles env j w) = Some (Inr []) \<or>
           reaches_boundary env (backfill_cycles env j w)))" by simp
    ultimately show ?thesis using k(2) by (rule_tac x = "Suc k" in exI) simp
  qed
  then obtain n where n: "n \<le> Suc (length src)" "oldest (backfill_cycles env n w) = None"
    and why: "(n = 0 \<and> oldest w = None) \<or>
       (\<exists>k. n = Suc k \<and>
          (backfill_fetch env (backfill_cycles env k w) = Some (Inr []) \<or>
           reaches_boundary env (backfill_cycles env k w)))"
    by (elim exE conjE)
  have stay: "backfill_cycles env (n + m) w = backfill_cycles env n w" for m
    unfolding backfill_cycles_add using n(2) by (rule backfill_cycles_no_marker)
  have noop: "runBackfill env (backfill_cycles env (n + m) w) =
      (Inr (), backfill_cycles env (n + m) w)" for m
    unfolding stay using n(2) by (intro runBackfill_no_marker) simp
  from stay noop have rest: "\<forall>m. backfill_cycles env (n + m) w = backfill_cycles env n w \<and>
                runBackfill env (backfill_cycles env (n + m) w) =
                  (Inr (), backfill_cycles env (n + m) w)" by simp
  show ?thesis
    by (rule exI [of _ n]) (intro conjI n rest why)
qed

theorem backfill_terminates_witness:
  "\<exists>n \<le> Suc (length sample_src).
     oldest (backfill_cycles (sample_env sample_src) n world_oldest_30_stop_05) = None \<and>
     (\<forall>m. backfill_cycles (sample_env sample_src) (n + m) world_oldest_30_stop_05 =
            backfill_cycles (sample_env sample_src) n world_oldest_30_stop_05 \<and>
          runBackfill (sample_env sample_src)
            (backfill_cycles (sample_env sample_src) (n + m) world_oldest_30_stop_05) =
            (Inr (), backfill_cycles (sample_env sample_src) (n + m) world_oldest_30_stop_05)) \<and>
     ((n = 0 \<and> oldest world_oldest_30_stop_05 = None) \<or>
      (\<exists>k. n = Suc k \<and>
         (backfill_fetch (sample_env sample_src)
            (backfill_cycles (sample_env sample_src) k world_oldest_30_stop_05) = Some (Inr []) \<or>
          reaches_boundary (sample_env sample_src)
            (backfill_cycles (sample_env sample_src) k world_oldest_30_stop_05))))"
proof (rule backfill_terminates)
  show "logs_api (sample_env sample_src) = static_source sample_src" by simp
  show "collates_as_strings (sample_env sample_src)
      (created_at ` set sample_src \<union> id' ` set sample_src)"
    by (rule collates_code_units) simp
  show "distinct (map id' sample_src)" by (simp add: sample_src_def)
  show "\<forall>r \<in> set sample_src. id' r \<noteq> []" by (simp add: sample_src_def)
  show "\<forall>logs. logs \<noteq> [] \<longrightarrow> sink_outcome (sample_env sample_src) logs = Inr ()"
    by (simp add: sample_sink_ok)
  show "oldest world_oldest_30_stop_05 \<noteq> Some []" by (simp add: world_oldest_30_stop_05_def)
  show "\<forall>t. oldest world_oldest_30_stop_05 = Some t \<longrightarrow>
      (\<forall>r \<in> set sample_src. created_at r < t \<longrightarrow> \<not> marked (ids world_oldest_30_stop_05) (id' r))"
    by (simp add: world_oldest_30_stop_05_def)
qed

text \<open>
  C4 as stated fails, in three ways. When the only record older than the marker already has
  a membership marker, the fetch returns it, the dedup filter drops it, and the cycle
  leaves the state as it was: no cycle ever fetches nothing and the marker is never
  deleted. Over the sample source with a stop boundary between its records the first cycle
  deletes the marker because its batch reaches the boundary, after which no cycle fetches at
  all: there too no cycle has a fetch that returns zero records. And over the two records
  whose timestamps differ in case, with no membership marker in the store at the start,
  the collation puts the greater timestamp first: the first cycle moves the marker to it,
  every later cycle fetches the other record, which is marked by then, and the marker is
  never deleted.
\<close>

theorem backfill_stuck_counterexample:
  "runBackfill (sample_env [recA]) world_A_marked = (Inr (), world_A_marked) \<and>
   backfill_fetch (sample_env [recA]) world_A_marked = Some (Inr [recA]) \<and>
   \<not> (\<exists>n. backfill_fetch (sample_env [recA])
              (backfill_cycles (sample_env [recA]) n world_A_marked) = Some (Inr []) \<or>
            oldest (backfill_cycles (sample_env [recA]) n world_A_marked) = None) \<and>
   \<not> (\<exists>n. backfill_fetch (sample_env sample_src)
              (backfill_cycles (sample_env sample_src) n world_oldest_30_stop_15) = Some (Inr [])) \<and>
   ids world_oldest_2025 = Map.empty \<and>
   distinct (map id' mixed_src) \<and>
   \<not> (\<exists>n. backfill_fetch (case_last_env mixed_src)
              (backfill_cycles (case_last_env mixed_src) n world_oldest_2025) = Some (Inr []) \<or>
            oldest (backfill_cycles (case_last_env mixed_src) n world_oldest_2025) = None)"
proof -
  have old: "oldest world_A_marked = Some ''20''"
    by (simp add: world_A_marked_def)
  have run: "runBackfill (sample_env [recA]) world_A_marked = (Inr (), world_A_marked)"
    using runBackfill_nothing [OF old _ sample_backfill_fetch_A _ sample_dedup_A_marked]
    by simp
  have bf: "backfill_fetch (sample_env [recA]) world_A_marked = Some (Inr [recA])"
    by (simp add: backfill_fetch_def old sample_backfill_fetch_A)
  have fixed: "backfill_cycles (sample_env [recA]) n world_A_marked = world_A_marked" for n
    using run by (rule backfill_cycles_fixed)
  have stuck: "\<not> (\<exists>n. backfill_fetch (sample_env [recA])
              (backfill_cycles (sample_env [recA]) n world_A_marked) = Some (Inr []) \<or>
            oldest (backfill_cycles (sample_env [recA]) n world_A_marked) = None)"
    unfolding fixed by (simp add: bf old)
  have boundary: "backfill_fetch (sample_env sample_src)
      (backfill_cycles (sample_env sample_src) n world_oldest_30_stop_15) \<noteq> Some (Inr [])" for n
  proof (cases n)
    case 0
    then show ?thesis by (simp add: sample_backfill_boundary(1))
  next
    case (Suc m)
    have "backfill_cycles (sample_env sample_src) m
        (snd (runBackfill (sample_env sample_src) world_oldest_30_stop_15)) =
        snd (runBackfill (sample_env sample_src) world_oldest_30_stop_15)"
      using sample_backfill_boundary(2) by (rule backfill_cycles_no_marker)
    with Suc show ?thesis
      by (simp add: backfill_fetch_def sample_backfill_boundary(2))
  qed
  then have nofetch: "\<not> (\<exists>n. backfill_fetch (sample_env sample_src)
      (backfill_cycles (sample_env sample_src) n world_oldest_30_stop_15) = Some (Inr []))"
    by blast
  have mixed: "backfill_fetch (case_last_env mixed_src)
          (backfill_cycles (case_last_env mixed_src) n world_oldest_2025) \<noteq> Some (Inr []) \<and>
        oldest (backfill_cycles (case_last_env mixed_src) n world_oldest_2025) \<noteq> None" for n
  proof (cases n)
    case 0
    then show ?thesis by (simp add: mixed_backfill_fetch)
  next
    case (Suc m)
    then show ?thesis
      unfolding Suc mixed_stall by (simp add: mixed_second_backfill(1) mixed_first_backfill(3))
  qed
  then have collation: "\<not> (\<exists>n. backfill_fetch (case_last_env mixed_src)
              (backfill_cycles (case_last_env mixed_src) n world_oldest_2025) = Some (Inr []) \<or>
            oldest (backfill_cycles (case_last_env mixed_src) n world_oldest_2025) = None)"
    by blast
  have e: "ids world_oldest_2025 = Map.empty" by simp
  have di: "distinct (map id' mixed_src)" by (simp add: mixed_src_def)
  show ?thesis
    by (intro conjI) (rule run bf stuck nofetch e di collation)+
qed

end
